theory Spec2Isabelle
  imports Complex_Main "HOL-Library.AList"
begin

section \<open>Errors and Python library primitives\<close>

text \<open>
  The exceptions that \<^verbatim>\<open>algorithm.py\<close> raises (or that the library calls it makes raise)
  are values. A \<^verbatim>\<open>ValueError\<close> carries which check produced it, together with the value
  that the message is formatted with.
\<close>

datatype option_key = K_REFNX | K_REFNY | K_REF_CHIP_SIZE | K_REF_MIN_FRAC

datatype value_error =
    InvalidRefX int
  | InvalidRefY int
  | InvalidChipsize
  | InvalidMinFrac
  | InvalidRefnx int
  | InvalidRefny int
  | ZeroStep
  | InvalidBins

datatype error =
    IndexError
  | KeyError option_key
  | ConfigException option_key
  | ValueError value_error
  | RefPixelError
  | AdditionError
  | NameError

text \<open>
  Python's \<^verbatim>\<open>xrange(start, stop, step)\<close>: a zero step raises \<^verbatim>\<open>ValueError\<close>; otherwise
  the range holds \<^verbatim>\<open>start + k * step\<close> for \<open>k\<close> below the length that CPython computes
  for it.
\<close>

definition xrange_len :: "int \<Rightarrow> int \<Rightarrow> int \<Rightarrow> nat" where
  "xrange_len start stop step =
     (if 0 < step \<and> start < stop then nat ((stop - start - 1) div step + 1)
      else if step < 0 \<and> stop < start then nat ((start - stop - 1) div (- step) + 1)
      else 0)"

definition xrange :: "int \<Rightarrow> int \<Rightarrow> int \<Rightarrow> error + int list" where
  "xrange start stop step =
     (if step = 0 then Inl (ValueError ZeroStep)
      else Inr (map (\<lambda>k. start + int k * step) [0 ..< xrange_len start stop step]))"

text \<open>
  A Python slice \<^verbatim>\<open>xs[lo:hi]\<close>: a negative bound counts from the end, and both bounds
  are clipped to the sequence.
\<close>

definition py_slice :: "int \<Rightarrow> int \<Rightarrow> 'a list \<Rightarrow> 'a list" where
  "py_slice lo hi xs =
     (let n = int (length xs);
          a = (if lo < 0 then max (lo + n) 0 else min lo n);
          b = (if hi < 0 then max (hi + n) 0 else min hi n)
      in take (nat (b - a)) (drop (nat a) xs))"

section \<open>Data model\<close>

text \<open>
  A float is NaN (\<open>None\<close>) or a value: a number or one of the two infinities. A finite float
  is taken as the real number that it is, so that comparing two floats is comparing their
  values; the arithmetic on floats, which rounds, is not computed here but taken from
  the parameters below. Dates are day numbers, so that the difference of two dates is a
  number of days. An interferogram carries the attributes that the algorithms read.
\<close>

datatype fval = NegInf | Fin real | PosInf

type_synonym cell = "fval option"

fun fval_less :: "fval \<Rightarrow> fval \<Rightarrow> bool" where
  "fval_less NegInf b = (b \<noteq> NegInf)"
| "fval_less (Fin x) NegInf = False"
| "fval_less (Fin x) (Fin y) = (x < y)"
| "fval_less (Fin x) PosInf = True"
| "fval_less PosInf b = False"

text \<open>The comparison \<^verbatim>\<open>a < b\<close> of two floats, which is false when either is NaN.\<close>

definition float_less :: "cell \<Rightarrow> cell \<Rightarrow> bool" where
  "float_less a b =
     (case a of None \<Rightarrow> False
      | Some x \<Rightarrow> (case b of None \<Rightarrow> False | Some y \<Rightarrow> fval_less x y))"

text \<open>
  The floating-point operations of Python and numpy that \<^verbatim>\<open>ref_pixel\<close> uses on finite
  numbers are parameters of the model: the product of two floats (\<open>fmul\<close>), \<^verbatim>\<open>numpy.std\<close>
  of an array of finite numbers (\<open>fstd\<close>), and \<^verbatim>\<open>numpy.mean\<close> of an array without NaN
  (\<open>fmean\<close>). Whatever these functions round to, the theorems hold.
\<close>

record float_ops =
  fmul :: "real \<Rightarrow> real \<Rightarrow> real"
  fstd :: "real list \<Rightarrow> cell"
  fmean :: "cell list \<Rightarrow> cell"

record 'e ifg =
  MASTER :: int
  SLAVE :: int
  DATE12 :: 'e
  nan_fraction :: real
  phase_data :: "cell list list"
  WIDTH :: int
  FILE_LENGTH :: int

text \<open>
  The configuration mapping, restricted to the keys that \<^verbatim>\<open>ref_pixel\<close> reads. A key that is
  absent from the mapping is \<open>None\<close>.
\<close>

record params =
  REFX :: "int option"
  REFY :: "int option"
  REFNX :: "int option"
  REFNY :: "int option"
  REF_CHIP_SIZE :: "int option"
  REF_MIN_FRAC :: "real option"

section \<open>Candidate window centres\<close>

text \<open>
  \<^verbatim>\<open>_step(dim, ref, radius)\<close>: the axis indices of the search windows. The grid dimension is
  written \<open>dm\<close> here.
\<close>

definition step :: "int \<Rightarrow> int \<Rightarrow> int \<Rightarrow> error + int list" where
  "step dm ref radius =
     (if ref = 1 then xrange (dm div 2) dm dm
      else let max_dim = dm - 2 * radius in
        if ref = 2 then Inr [radius, dm - radius - 1]
        else let stride = max_dim div (ref - 1) in xrange radius dm stride)"

section \<open>Validation of the search parameters\<close>

definition check_ref_pixel_params :: "params \<Rightarrow> 'e ifg \<Rightarrow> error + unit" where
  "check_ref_pixel_params ps head =
     (case REF_CHIP_SIZE ps of
        None \<Rightarrow> Inl (ConfigException K_REF_CHIP_SIZE)
      | Some chipsize \<Rightarrow>
       (if chipsize < 3 \<or> chipsize > WIDTH head \<or> chipsize mod 2 = 0
        then Inl (ValueError InvalidChipsize)
        else (case REF_MIN_FRAC ps of
          None \<Rightarrow> Inl (ConfigException K_REF_MIN_FRAC)
        | Some min_frac \<Rightarrow>
         (if min_frac < 0 \<or> min_frac > 1 then Inl (ValueError InvalidMinFrac)
          else (case REFNX ps of
            None \<Rightarrow> Inl (ConfigException K_REFNX)
          | Some refnx \<Rightarrow>
           (let max_width = WIDTH head - (chipsize - 1) in
            if refnx < 1 \<or> refnx > max_width then Inl (ValueError (InvalidRefnx max_width))
            else (case REFNY ps of
              None \<Rightarrow> Inl (ConfigException K_REFNY)
            | Some refny \<Rightarrow>
             (let max_rows = FILE_LENGTH head - (chipsize - 1) in
              if refny < 1 \<or> refny > max_rows then Inl (ValueError (InvalidRefny max_rows))
              else Inr ()))))))))"

section \<open>Reference pixel search\<close>

text \<open>
  The window \<^verbatim>\<open>[y-radius:y+radius+1, x-radius:x+radius+1]\<close> of one phase grid, and the
  cells of a window that are not NaN (\<^verbatim>\<open>i[~isnan(i)]\<close>, flattened row by row).
\<close>

definition window :: "cell list list \<Rightarrow> int \<Rightarrow> int \<Rightarrow> int \<Rightarrow> cell list list" where
  "window grid y x radius =
     map (py_slice (x - radius) (x + radius + 1)) (py_slice (y - radius) (y + radius + 1) grid)"

definition not_nan :: "cell list list \<Rightarrow> cell list" where
  "not_nan w = filter (\<lambda>c. c \<noteq> None) (concat w)"

text \<open>
  \<^verbatim>\<open>numpy.mean\<close> is NaN on an empty array and on an array that holds a NaN.
  \<^verbatim>\<open>numpy.std\<close>, the root of the mean squared deviation from the mean, is NaN on an
  empty array and on an array that holds a NaN or an infinity (the deviation of an
  infinity from the mean is NaN). Otherwise the result is what the float arithmetic
  gives.
\<close>

fun finite_values :: "cell list \<Rightarrow> real list option" where
  "finite_values [] = Some []"
| "finite_values (Some (Fin x) # cs) = map_option ((#) x) (finite_values cs)"
| "finite_values (c # cs) = None"

definition np_mean :: "float_ops \<Rightarrow> cell list \<Rightarrow> cell" where
  "np_mean fl xs = (if xs = [] \<or> None \<in> set xs then None else fmean fl xs)"

definition np_std :: "float_ops \<Rightarrow> cell list \<Rightarrow> cell" where
  "np_std fl xs =
     (if xs = [] then None
      else (case finite_values xs of None \<Rightarrow> None | Some rs \<Rightarrow> fstd fl rs))"

text \<open>The test \<^verbatim>\<open>all(valid)\<close> and the score \<^verbatim>\<open>mean_sd\<close> of the candidate centre \<open>(y, x)\<close>.\<close>

definition all_valid :: "'e ifg list \<Rightarrow> int \<Rightarrow> real \<Rightarrow> int \<times> int \<Rightarrow> bool" where
  "all_valid ifgs radius thresh c =
     list_all (\<lambda>i. real (length (not_nan (window (phase_data i) (fst c) (snd c) radius))) > thresh)
       ifgs"

definition mean_sd :: "float_ops \<Rightarrow> 'e ifg list \<Rightarrow> int \<Rightarrow> int \<times> int \<Rightarrow> cell" where
  "mean_sd fl ifgs radius c =
     np_mean fl
       (map (\<lambda>i. np_std fl (not_nan (window (phase_data i) (fst c) (snd c) radius))) ifgs)"

text \<open>
  The body of the inner loop: the running best is \<open>(min_sd, (refy, refx))\<close>, and \<^verbatim>\<open>min_sd\<close>
  starts at \<^verbatim>\<open>float("inf")\<close>.
\<close>

definition visit :: "float_ops \<Rightarrow> 'e ifg list \<Rightarrow> int \<Rightarrow> real \<Rightarrow> int \<times> int \<Rightarrow> cell \<times> int \<times> int
    \<Rightarrow> cell \<times> int \<times> int" where
  "visit fl ifgs radius thresh c best =
     (if all_valid ifgs radius thresh c then
        (let m = mean_sd fl ifgs radius c
         in if float_less m (fst best) then (m, c) else best)
      else best)"

text \<open>
  The outer loop over the rows \<open>ys\<close>; the columns are generated anew for every row, as
  the source does.
\<close>

fun scan_rows :: "float_ops \<Rightarrow> 'e ifg list \<Rightarrow> int \<Rightarrow> int \<Rightarrow> int \<Rightarrow> real \<Rightarrow> int list
    \<Rightarrow> cell \<times> int \<times> int \<Rightarrow> error + (cell \<times> int \<times> int)" where
  "scan_rows fl ifgs width refnx radius thresh [] best = Inr best"
| "scan_rows fl ifgs width refnx radius thresh (y # ys) best =
     (case step width refnx radius of
        Inl e \<Rightarrow> Inl e
      | Inr xs \<Rightarrow>
          scan_rows fl ifgs width refnx radius thresh ys
            (fold (\<lambda>x. visit fl ifgs radius thresh (y, x)) xs best))"

text \<open>
  The threshold \<^verbatim>\<open>params[REF_MIN_FRAC] * chipsize * chipsize\<close>, two float products from
  left to right.
\<close>

definition threshold :: "float_ops \<Rightarrow> real \<Rightarrow> int \<Rightarrow> real" where
  "threshold fl min_frac chipsize =
     fmul fl (fmul fl min_frac (real_of_int chipsize)) (real_of_int chipsize)"

text \<open>The part of \<^verbatim>\<open>ref_pixel\<close> that follows the validation of the search parameters.\<close>

definition ref_pixel_search :: "float_ops \<Rightarrow> params \<Rightarrow> 'e ifg list \<Rightarrow> 'e ifg \<Rightarrow> int \<Rightarrow> int
    \<Rightarrow> error + (int \<times> int)" where
  "ref_pixel_search fl ps ifgs head refy refx =
     (case REFNX ps of None \<Rightarrow> Inl (KeyError K_REFNX) | Some refnx \<Rightarrow>
     (case REFNY ps of None \<Rightarrow> Inl (KeyError K_REFNY) | Some refny \<Rightarrow>
     (case REF_CHIP_SIZE ps of None \<Rightarrow> Inl (KeyError K_REF_CHIP_SIZE) | Some chipsize \<Rightarrow>
     (case REF_MIN_FRAC ps of None \<Rightarrow> Inl (KeyError K_REF_MIN_FRAC) | Some min_frac \<Rightarrow>
       (let radius = chipsize div 2;
            thresh = threshold fl min_frac chipsize
        in (case step (FILE_LENGTH head) refny radius of
              Inl e \<Rightarrow> Inl e
            | Inr ys \<Rightarrow>
               (case scan_rows fl ifgs (WIDTH head) refnx radius thresh ys
                       (Some PosInf, refy, refx) of
                  Inl e \<Rightarrow> Inl e
                | Inr best \<Rightarrow>
                    if snd best = (0, 0) then Inl RefPixelError else Inr (snd best))))))))"

definition ref_pixel :: "float_ops \<Rightarrow> params \<Rightarrow> 'e ifg list \<Rightarrow> error + (int \<times> int)" where
  "ref_pixel fl ps ifgs =
     (case ifgs of
        [] \<Rightarrow> Inl IndexError
      | head # _ \<Rightarrow>
         (let refx = (case REFX ps of None \<Rightarrow> 0 | Some v \<Rightarrow> v);
              refy = (case REFY ps of None \<Rightarrow> 0 | Some v \<Rightarrow> v)
          in if refx \<noteq> 0 \<or> refy \<noteq> 0 then
               (if refx < 1 \<or> refx > WIDTH head - 1 then Inl (ValueError (InvalidRefX refx))
                else if refy < 1 \<or> refy > FILE_LENGTH head - 1
                  then Inl (ValueError (InvalidRefY refy))
                else Inr (refy, refx))
             else (case check_ref_pixel_params ps head of
                     Inl e \<Rightarrow> Inl e
                   | Inr u \<Rightarrow> ref_pixel_search fl ps ifgs head refy refx)))"

section \<open>Notions used in the statements\<close>

text \<open>The pinned coordinates as \<^verbatim>\<open>ref_pixel\<close> reads them: an absent key counts as 0.\<close>

definition config_refx :: "params \<Rightarrow> int" where
  "config_refx ps = (case REFX ps of None \<Rightarrow> 0 | Some v \<Rightarrow> v)"

definition config_refy :: "params \<Rightarrow> int" where
  "config_refy ps = (case REFY ps of None \<Rightarrow> 0 | Some v \<Rightarrow> v)"

text \<open>The four range checks of \<^verbatim>\<open>check_ref_pixel_params\<close>, each on a key that is present.\<close>

definition chipsize_ok :: "params \<Rightarrow> 'e ifg \<Rightarrow> bool" where
  "chipsize_ok ps head =
     (case REF_CHIP_SIZE ps of None \<Rightarrow> False
      | Some c \<Rightarrow> 3 \<le> c \<and> c \<le> WIDTH head \<and> c mod 2 \<noteq> 0)"

definition min_frac_ok :: "params \<Rightarrow> bool" where
  "min_frac_ok ps = (case REF_MIN_FRAC ps of None \<Rightarrow> False | Some f \<Rightarrow> 0 \<le> f \<and> f \<le> 1)"

definition refnx_ok :: "params \<Rightarrow> 'e ifg \<Rightarrow> bool" where
  "refnx_ok ps head =
     (case (REFNX ps, REF_CHIP_SIZE ps) of
        (Some n, Some c) \<Rightarrow> 1 \<le> n \<and> n \<le> WIDTH head - (c - 1)
      | _ \<Rightarrow> False)"

definition refny_ok :: "params \<Rightarrow> 'e ifg \<Rightarrow> bool" where
  "refny_ok ps head =
     (case (REFNY ps, REF_CHIP_SIZE ps) of
        (Some n, Some c) \<Rightarrow> 1 \<le> n \<and> n \<le> FILE_LENGTH head - (c - 1)
      | _ \<Rightarrow> False)"

section \<open>Example inputs\<close>

definition blank_ifg :: "unit ifg" where
  "blank_ifg = \<lparr>MASTER = 0, SLAVE = 1, DATE12 = (), nan_fraction = 0, phase_data = [],
     WIDTH = 10, FILE_LENGTH = 10\<rparr>"

definition pinned_params :: params where
  "pinned_params = \<lparr>REFX = Some 3, REFY = Some 2, REFNX = None, REFNY = None,
     REF_CHIP_SIZE = None, REF_MIN_FRAC = None\<rparr>"

definition pinned_x_only :: params where
  "pinned_x_only = \<lparr>REFX = Some 100, REFY = Some 0, REFNX = None, REFNY = None,
     REF_CHIP_SIZE = None, REF_MIN_FRAC = None\<rparr>"

definition pinned_y_only :: params where
  "pinned_y_only = \<lparr>REFX = Some 0, REFY = Some 5, REFNX = None, REFNY = None,
     REF_CHIP_SIZE = None, REF_MIN_FRAC = None\<rparr>"



section \<open>Notions of the window scan\<close>

text \<open>
  The outcome that the search is meant to have on the candidate list \<open>cs\<close> (in scan order):
  \<open>c\<close> is a candidate that is valid in every interferogram, its mean standard deviation
  is below \<^verbatim>\<open>inf\<close>, no valid candidate has a lower mean standard deviation, and no valid
  candidate before \<open>c\<close> has the same one.
\<close>

definition first_best :: "float_ops \<Rightarrow> 'e ifg list \<Rightarrow> int \<Rightarrow> real \<Rightarrow> (int \<times> int) list \<Rightarrow> int \<times> int
    \<Rightarrow> bool" where
  "first_best fl ifgs radius thresh cs c \<longleftrightarrow>
     (\<exists>i<length cs. cs ! i = c \<and> all_valid ifgs radius thresh c \<and>
        float_less (mean_sd fl ifgs radius c) (Some PosInf) \<and>
        (\<forall>j<length cs. all_valid ifgs radius thresh (cs ! j) \<longrightarrow>
           \<not> float_less (mean_sd fl ifgs radius (cs ! j)) (mean_sd fl ifgs radius c) \<and>
           (j < i \<longrightarrow> mean_sd fl ifgs radius (cs ! j) \<noteq> mean_sd fl ifgs radius c)))"

text \<open>
  The loop invariant of the scan, after the candidates \<open>cs\<close>: no valid candidate seen is
  below the running minimum, and either nothing has been selected, or the running best
  is the first valid candidate seen that has the running minimum.
\<close>

definition scan_inv :: "float_ops \<Rightarrow> 'e ifg list \<Rightarrow> int \<Rightarrow> real \<Rightarrow> int \<times> int \<Rightarrow> (int \<times> int) list
    \<Rightarrow> cell \<times> int \<times> int \<Rightarrow> bool" where
  "scan_inv fl ifgs radius thresh c0 cs best \<longleftrightarrow>
     (\<forall>j<length cs. all_valid ifgs radius thresh (cs ! j) \<longrightarrow>
        \<not> float_less (mean_sd fl ifgs radius (cs ! j)) (fst best)) \<and>
     ((fst best = Some PosInf \<and> snd best = c0) \<or>
      (\<exists>i<length cs. snd best = cs ! i \<and> all_valid ifgs radius thresh (cs ! i) \<and>
         fst best = mean_sd fl ifgs radius (cs ! i) \<and> float_less (fst best) (Some PosInf) \<and>
         (\<forall>j<i. all_valid ifgs radius thresh (cs ! j) \<longrightarrow>
            mean_sd fl ifgs radius (cs ! j) \<noteq> fst best)))"

section \<open>Example grids\<close>

text \<open>
  An instance of the float operations for the examples: the arithmetic without rounding.
\<close>

definition exact_ops :: float_ops where
  "exact_ops =
     \<lparr>fmul = (\<lambda>a b. a * b),
      fstd = (\<lambda>rs. let m = sum_list rs / real (length rs)
                  in Some (Fin (sqrt (sum_list (map (\<lambda>x. (x - m)\<^sup>2) rs) / real (length rs))))),
      fmean = (\<lambda>cs. case finite_values cs of
                  None \<Rightarrow> None
                | Some rs \<Rightarrow> Some (Fin (sum_list rs / real (length rs))))\<rparr>"

definition search_params :: params where
  "search_params = \<lparr>REFX = None, REFY = None, REFNX = Some 2, REFNY = Some 1,
     REF_CHIP_SIZE = Some 3, REF_MIN_FRAC = Some (1 / 2)\<rparr>"

definition ramp_ifg :: "unit ifg" where
  "ramp_ifg = \<lparr>MASTER = 0, SLAVE = 1, DATE12 = (), nan_fraction = 0,
     phase_data = [ [Some (Fin 0), Some (Fin 1), Some (Fin 1), Some (Fin 1)],
                   [Some (Fin 0), Some (Fin 1), Some (Fin 1), Some (Fin 1)],
                   [Some (Fin 0), Some (Fin 1), Some (Fin 1), Some (Fin 1)] ],
     WIDTH = 4, FILE_LENGTH = 3\<rparr>"

definition nan_ifg :: "unit ifg" where
  "nan_ifg = \<lparr>MASTER = 0, SLAVE = 1, DATE12 = (), nan_fraction = 1,
     phase_data = [ [None, None, None, None],
                   [None, None, None, None],
                   [None, None, None, None] ],
     WIDTH = 4, FILE_LENGTH = 3\<rparr>"

definition inf_ifg :: "unit ifg" where
  "inf_ifg = \<lparr>MASTER = 0, SLAVE = 1, DATE12 = (), nan_fraction = 0,
     phase_data = [ [Some PosInf, Some PosInf, Some PosInf, Some PosInf],
                   [Some PosInf, Some PosInf, Some PosInf, Some PosInf],
                   [Some PosInf, Some PosInf, Some PosInf, Some PosInf] ],
     WIDTH = 4, FILE_LENGTH = 3\<rparr>"

section \<open>Minimum spanning trees\<close>

text \<open>
  The dictionary that \<^verbatim>\<open>minimal_spanning_tree\<close> returns maps a node to its parent, and a
  root to \<^verbatim>\<open>None\<close>. It is an association list, in which every key occurs once.
\<close>

type_synonym 'n mst = "('n \<times> 'n option) list"

text \<open>
  \<^verbatim>\<open>_remove_root_node\<close>: the loop runs over the keys that the dictionary has at the start
  and deletes each key whose value is \<^verbatim>\<open>None\<close>.
\<close>

definition remove_root_node :: "'n mst \<Rightarrow> 'n mst" where
  "remove_root_node mst =
     fold (\<lambda>k m. if map_of m k = Some None then AList.delete k m else m) (map fst mst) mst"

section \<open>Example trees\<close>

definition triangle_mst :: "nat mst" where
  "triangle_mst = [(0, None), (1, Some 0), (2, Some 1)]"

definition forest_mst :: "nat mst" where
  "forest_mst = [(10, None), (30, Some 10), (20, None)]"

section \<open>Epochs\<close>

text \<open>
  \<^verbatim>\<open>numpy.unique(ar, False, True)\<close>: the sorted distinct elements, and for every element
  of the input its index among them.
\<close>

definition index_of :: "'a list \<Rightarrow> 'a \<Rightarrow> nat" where
  "index_of ds x = length (takeWhile (\<lambda>d. d \<noteq> x) ds)"

definition np_unique :: "int list \<Rightarrow> int list \<times> nat list" where
  "np_unique ar = (let ds = sort (remdups ar) in (ds, map (index_of ds) ar))"

text \<open>
  \<^verbatim>\<open>numpy.histogram(a, bins)\<close> for a number of bins: the bins split the range from the
  minimum to the maximum of the data (widened by one half on both sides when the two are
  equal, and from 0 to 1 on no data) into equal parts; every bin is closed on the left
  and open on the right, but the last, which is closed on both sides. The bin edges are
  floats, idealised as reals.
\<close>

definition bin_edge :: "real \<Rightarrow> real \<Rightarrow> nat \<Rightarrow> nat \<Rightarrow> real" where
  "bin_edge mn mx bins i = mn + real i * (mx - mn) / real bins"

definition in_bin :: "real \<Rightarrow> real \<Rightarrow> nat \<Rightarrow> nat \<Rightarrow> nat \<Rightarrow> bool" where
  "in_bin mn mx bins i v \<longleftrightarrow>
     bin_edge mn mx bins i \<le> real v \<and>
     (if Suc i = bins then real v \<le> bin_edge mn mx bins (Suc i)
      else real v < bin_edge mn mx bins (Suc i))"

definition histogram :: "nat list \<Rightarrow> nat \<Rightarrow> error + nat list" where
  "histogram a bins =
     (if bins < 1 then Inl (ValueError InvalidBins)
      else
        let mn0 = (if a = [] then 0 else real (Min (set a)));
            mx0 = (if a = [] then 1 else real (Max (set a)));
            mn = (if mn0 = mx0 then mn0 - 1 / 2 else mn0);
            mx = (if mn0 = mx0 then mx0 + 1 / 2 else mx0)
        in Inr (map (\<lambda>i. length (filter (in_bin mn mx bins i) a)) [0 ..< bins]))"

text \<open>
  The \<^verbatim>\<open>EpochList\<close> that \<^verbatim>\<open>get_epochs\<close> builds: the dates, the repeat count of every
  date, and its span in years from the first date.
\<close>

record EpochList =
  dates :: "int list"
  repeat :: "nat list"
  spans :: "real list"

definition get_epochs :: "'e ifg list \<Rightarrow> error + EpochList" where
  "get_epochs ifgs =
     (let masters = map MASTER ifgs;
          slaves = map SLAVE ifgs;
          combined = masters @ slaves;
          (ds, n) = np_unique combined
      in case histogram n (length (remdups n)) of
           Inl e \<Rightarrow> Inl e
         | Inr rep \<Rightarrow>
             Inr \<lparr>dates = ds, repeat = rep,
                  spans = map (\<lambda>i. real_of_int (ds ! i - ds ! 0) / 365.25) [0 ..< length ds]\<rparr>)"

section \<open>Example stacks\<close>

definition triangle_ifgs :: "unit ifg list" where
  "triangle_ifgs =
     [\<lparr>MASTER = 10, SLAVE = 20, DATE12 = (), nan_fraction = 0, phase_data = [],
       WIDTH = 0, FILE_LENGTH = 0\<rparr>,
      \<lparr>MASTER = 20, SLAVE = 30, DATE12 = (), nan_fraction = 0, phase_data = [],
       WIDTH = 0, FILE_LENGTH = 0\<rparr>,
      \<lparr>MASTER = 10, SLAVE = 30, DATE12 = (), nan_fraction = 0, phase_data = [],
       WIDTH = 0, FILE_LENGTH = 0\<rparr>]"

section \<open>The network graph\<close>

text \<open>
  Modelled from the spec: the \<^verbatim>\<open>graph\<close> class of the pygraph library, the spec's
  NetworkGraph (section 4.3), which is not part of the repository. A graph has its nodes
  and, for every edge identifier that is present, the weight of the edge; edges are
  inserted, tested and removed by identifier. As in pygraph, \<^verbatim>\<open>add_node\<close> and
  \<^verbatim>\<open>add_edge\<close> raise \<^verbatim>\<open>AdditionError\<close> on a node or an edge that the graph already
  has; \<^verbatim>\<open>del_edge\<close> is only called on an edge that \<^verbatim>\<open>has_edge\<close> has found.
\<close>

record ('n, 'e) graph =
  nodes :: "'n list"
  edge_weights :: "('e \<times> real) list"

definition empty_graph :: "('n, 'e) graph" where
  "empty_graph = \<lparr>nodes = [], edge_weights = []\<rparr>"

definition has_edge :: "('n, 'e) graph \<Rightarrow> 'e \<Rightarrow> bool" where
  "has_edge g e \<longleftrightarrow> e \<in> fst ` set (edge_weights g)"

definition add_node :: "('n, 'e) graph \<Rightarrow> 'n \<Rightarrow> error + ('n, 'e) graph" where
  "add_node g n =
     (if n \<in> set (nodes g) then Inl AdditionError else Inr (g\<lparr>nodes := nodes g @ [n]\<rparr>))"

fun add_nodes :: "('n, 'e) graph \<Rightarrow> 'n list \<Rightarrow> error + ('n, 'e) graph" where
  "add_nodes g [] = Inr g"
| "add_nodes g (n # ns) =
     (case add_node g n of Inl e \<Rightarrow> Inl e | Inr g' \<Rightarrow> add_nodes g' ns)"

definition add_edge :: "('n, 'e) graph \<Rightarrow> 'e \<Rightarrow> real \<Rightarrow> error + ('n, 'e) graph" where
  "add_edge g e wt =
     (if has_edge g e then Inl AdditionError
      else Inr (g\<lparr>edge_weights := edge_weights g @ [(e, wt)]\<rparr>))"

definition del_edge :: "('n, 'e) graph \<Rightarrow> 'e \<Rightarrow> ('n, 'e) graph" where
  "del_edge g e = g\<lparr>edge_weights := AList.delete e (edge_weights g)\<rparr>"

section \<open>Per-pixel minimum spanning trees\<close>

text \<open>
  A cell of the result array holds the tree of the pixel or \<^verbatim>\<open>nan\<close>. The library function
  \<^verbatim>\<open>minimal_spanning_tree\<close> is a parameter \<open>mst_of\<close> of the model.
\<close>

datatype 'n pixel_result = Tree "'n mst" | Undefined

text \<open>The graph of all interferograms that \<^verbatim>\<open>mst_matrix\<close> builds first.\<close>

fun add_edges :: "('n, 'e) graph \<Rightarrow> ('e \<times> real) list \<Rightarrow> error + ('n, 'e) graph" where
  "add_edges g [] = Inr g"
| "add_edges g ((edge, weight) # rest) =
     (case add_edge g edge weight of Inl e \<Rightarrow> Inl e | Inr g' \<Rightarrow> add_edges g' rest)"

definition build_graph :: "'n list \<Rightarrow> 'e list \<Rightarrow> real list \<Rightarrow> error + ('n, 'e) graph" where
  "build_graph ds edges weights =
     (case add_nodes empty_graph ds of
        Inl e \<Rightarrow> Inl e
      | Inr g \<Rightarrow> add_edges g (zip edges weights))"

text \<open>
  The inner loop over \<^verbatim>\<open>zip(values, edges, weights)\<close>, which inserts the edge of a value
  that is present when the graph lacks it, and removes the edge of a NaN when the graph
  has it.
\<close>

fun adjust_graph :: "('n, 'e) graph \<Rightarrow> (cell \<times> 'e \<times> real) list \<Rightarrow> error + ('n, 'e) graph" where
  "adjust_graph g [] = Inr g"
| "adjust_graph g ((v, edge, weight) # rest) =
     (if v \<noteq> None then
        (if \<not> has_edge g edge then
           (case add_edge g edge weight of Inl e \<Rightarrow> Inl e | Inr g' \<Rightarrow> adjust_graph g' rest)
         else adjust_graph g rest)
      else
        (if has_edge g edge then adjust_graph (del_edge g edge) rest
         else adjust_graph g rest))"

text \<open>
  \<^verbatim>\<open>data_stack[:, y, x]\<close>: the values of all interferograms at one pixel; an index outside
  a phase array raises \<^verbatim>\<open>IndexError\<close>.
\<close>

fun pixel_values :: "'e ifg list \<Rightarrow> nat \<Rightarrow> nat \<Rightarrow> error + cell list" where
  "pixel_values [] y x = Inr []"
| "pixel_values (i # rest) y x =
     (if y < length (phase_data i) \<and> x < length (phase_data i ! y) then
        (case pixel_values rest y x of
           Inl e \<Rightarrow> Inl e
         | Inr vs \<Rightarrow> Inr (phase_data i ! y ! x # vs))
      else Inl IndexError)"

text \<open>
  The body of the loop over the pixels. The state is the shared graph and the cells of
  the result array assigned so far.
\<close>

definition pixel_step :: "(('n, 'e) graph \<Rightarrow> 'n mst) \<Rightarrow> 'n mst \<Rightarrow> 'e ifg list
    \<Rightarrow> ('n, 'e) graph \<times> ((nat \<times> nat) \<times> 'n pixel_result) list \<Rightarrow> nat \<times> nat
    \<Rightarrow> error + (('n, 'e) graph \<times> ((nat \<times> nat) \<times> 'n pixel_result) list)" where
  "pixel_step mst_of default_mst ifgs st p =
     (case pixel_values ifgs (fst p) (snd p) of
        Inl e \<Rightarrow> Inl e
      | Inr vals \<Rightarrow>
         (let nc = length (filter (\<lambda>v. v = None) vals);
              num_ifgs = length ifgs
          in if nc = 0 then Inr (fst st, snd st @ [(p, Tree default_mst)])
             else if nc = num_ifgs then Inr (fst st, snd st @ [(p, Undefined)])
             else
               (case adjust_graph (fst st)
                       (zip vals (zip (map DATE12 ifgs) (map nan_fraction ifgs))) of
                  Inl e \<Rightarrow> Inl e
                | Inr g \<Rightarrow> Inr (g, snd st @ [(p, Tree (remove_root_node (mst_of g)))]))))"

fun pixels_loop :: "(('n, 'e) graph \<Rightarrow> 'n mst) \<Rightarrow> 'n mst \<Rightarrow> 'e ifg list \<Rightarrow> (nat \<times> nat) list
    \<Rightarrow> ('n, 'e) graph \<times> ((nat \<times> nat) \<times> 'n pixel_result) list
    \<Rightarrow> error + (('n, 'e) graph \<times> ((nat \<times> nat) \<times> 'n pixel_result) list)" where
  "pixels_loop mst_of default_mst ifgs [] st = Inr st"
| "pixels_loop mst_of default_mst ifgs (p # ps) st =
     (case pixel_step mst_of default_mst ifgs st p of
        Inl e \<Rightarrow> Inl e
      | Inr st' \<Rightarrow> pixels_loop mst_of default_mst ifgs ps st')"

text \<open>
  \<^verbatim>\<open>mst_matrix\<close>. The grid dimensions are read from the variable \<^verbatim>\<open>i\<close> that the list
  comprehensions leave behind, the last interferogram; on an empty stack that variable
  does not exist.
\<close>

definition mst_matrix :: "((int, 'e) graph \<Rightarrow> int mst) \<Rightarrow> 'e ifg list \<Rightarrow> EpochList
    \<Rightarrow> error + ((nat \<times> nat) \<times> int pixel_result) list" where
  "mst_matrix mst_of ifgs epochs =
     (case build_graph (dates epochs) (map DATE12 ifgs) (map nan_fraction ifgs) of
        Inl e \<Rightarrow> Inl e
      | Inr g \<Rightarrow>
         (let default_mst = remove_root_node (mst_of g) in
          if ifgs = [] then Inl NameError
          else
            (let i = last ifgs in
             case pixels_loop mst_of default_mst ifgs
                    (List.product [0 ..< nat (FILE_LENGTH i)] [0 ..< nat (WIDTH i)]) (g, []) of
               Inl e \<Rightarrow> Inl e
             | Inr st \<Rightarrow> Inr (snd st))))"

section \<open>Example stack with three interferograms\<close>

text \<open>
  Three interferograms over the dates 10, 20 and 30 on a grid of one row and three
  columns: in the first column every value is present, in the second the first
  interferogram is NaN, in the third all are.
\<close>

definition abc_ifgs :: "(int \<times> int) ifg list" where
  "abc_ifgs =
     [\<lparr>MASTER = 10, SLAVE = 20, DATE12 = (10, 20), nan_fraction = 1 / 10,
       phase_data = [ [Some (Fin 1), None, None] ], WIDTH = 3, FILE_LENGTH = 1\<rparr>,
      \<lparr>MASTER = 20, SLAVE = 30, DATE12 = (20, 30), nan_fraction = 2 / 10,
       phase_data = [ [Some (Fin 1), Some (Fin 2), None] ], WIDTH = 3, FILE_LENGTH = 1\<rparr>,
      \<lparr>MASTER = 10, SLAVE = 30, DATE12 = (10, 30), nan_fraction = 3 / 10,
       phase_data = [ [Some (Fin 1), Some (Fin 2), None] ], WIDTH = 3, FILE_LENGTH = 1\<rparr>]"

definition abc_graph :: "(int, int \<times> int) graph" where
  "abc_graph = \<lparr>nodes = [10, 20, 30],
     edge_weights = [((10, 20), 1 / 10), ((20, 30), 2 / 10), ((10, 30), 3 / 10)]\<rparr>"

definition bc_graph :: "(int, int \<times> int) graph" where
  "bc_graph = \<lparr>nodes = [10, 20, 30],
     edge_weights = [((20, 30), 2 / 10), ((10, 30), 3 / 10)]\<rparr>"

text \<open>A tree function for the examples: every node hangs off the first node.\<close>

definition star_tree :: "(int, 'e) graph \<Rightarrow> int mst" where
  "star_tree g =
     (case nodes g of [] \<Rightarrow> [] | r # ns \<Rightarrow> (r, None) # map (\<lambda>n. (n, Some r)) ns)"

definition star :: "int mst" where
  "star = [(20, Some 10), (30, Some 10)]"

section \<open>Notions of the per-pixel loop\<close>

text \<open>
  What every graph of the loop satisfies: no edge occurs twice, and every edge is the
  edge of an interferogram, with its weight.
\<close>

definition graph_inv :: "'e ifg list \<Rightarrow> ('n, 'e) graph \<Rightarrow> bool" where
  "graph_inv ifgs g \<longleftrightarrow>
     distinct (map fst (edge_weights g)) \<and>
     set (edge_weights g) \<subseteq> set (zip (map DATE12 ifgs) (map nan_fraction ifgs))"

text \<open>
  The edges, with their weights, of the interferograms whose value in \<open>vals\<close> (the values
  of the stack at one pixel) is not NaN.
\<close>

definition present_edges :: "'e ifg list \<Rightarrow> cell list \<Rightarrow> ('e \<times> real) set" where
  "present_edges ifgs vals =
     {(DATE12 (ifgs ! k), nan_fraction (ifgs ! k)) | k. k < length ifgs \<and> vals ! k \<noteq> None}"

section \<open>Candidate centres along one axis\<close>

lemma step_one: "0 < dm \<Longrightarrow> step dm 1 radius = Inr [dm div 2]"
  by (simp add: step_def xrange_def xrange_len_def)

lemma step_two: "step dm 2 radius = Inr [radius, dm - radius - 1]"
  by (simp add: step_def)

lemma step_general:
  "ref \<noteq> 1 \<Longrightarrow> ref \<noteq> 2 \<Longrightarrow> (dm - 2 * radius) div (ref - 1) \<noteq> 0 \<Longrightarrow>
   step dm ref radius =
     Inr (map (\<lambda>k. radius + int k * ((dm - 2 * radius) div (ref - 1)))
            [0 ..< xrange_len radius dm ((dm - 2 * radius) div (ref - 1))])"
  by (simp add: step_def xrange_def Let_def)

text \<open>
  Claim C2. For one and for two requested steps the generator gives the single centre
  \<open>dm div 2\<close> and the two centres \<open>radius\<close> and \<open>dm - radius - 1\<close> (\<open>step_one\<close>,
  \<open>step_two\<close>). For more steps it gives every position \<open>radius + k * stride\<close> below the
  dimension (\<open>step_general\<close>), and these can be more than the requested number: on a
  dimension of 5 with radius 1 (chip size 3), three requested steps pass the validation
  and produce the four centres 1, 2, 3, 4.
\<close>

theorem step_count_failing_input: "step 5 3 1 = Inr [1, 2, 3, 4]"
  by (simp add: step_def xrange_def xrange_len_def upt_conv_Cons)

section \<open>Pinned reference pixel\<close>

text \<open>
  Claim C4. When \<open>refx\<close> and \<open>refy\<close> are both non-zero, with \<open>1 \<le> refx \<le> width - 1\<close> and
  \<open>1 \<le> refy \<le> height - 1\<close>, \<^verbatim>\<open>ref_pixel\<close> returns \<open>(refy, refx)\<close>, whatever the search
  parameters and the phase data are: no parameter is validated and no window is read.
\<close>

theorem ref_pixel_pinned:
  assumes "REFX ps = Some rx" and "REFY ps = Some ry"
    and "rx \<noteq> 0" and "ry \<noteq> 0"
    and "1 \<le> rx" and "rx \<le> WIDTH head - 1"
    and "1 \<le> ry" and "ry \<le> FILE_LENGTH head - 1"
  shows "ref_pixel fl ps (head # rest) = Inr (ry, rx)"
  using assms by (simp add: ref_pixel_def)

theorem ref_pixel_pinned_witness:
  "ref_pixel exact_ops pinned_params [blank_ifg] = Inr (2, 3)"
  using ref_pixel_pinned [where ps = pinned_params and rx = 3 and ry = 2 and head = blank_ifg
      and rest = "[]" and fl = exact_ops]
  by (simp add: pinned_params_def blank_ifg_def)

text \<open>
  Claim C10, as stated: when exactly one of \<open>refx\<close>, \<open>refy\<close> is non-zero the error is
  about the zero coordinate. With \<open>refx = 100\<close> on a grid of width 10 and \<open>refy = 0\<close> the
  error is about \<open>refx\<close>, which is checked first.
\<close>

theorem pinned_zero_coordinate_counterexample:
  "ref_pixel exact_ops pinned_x_only [blank_ifg] = Inl (ValueError (InvalidRefX 100)) \<and>
   ref_pixel exact_ops pinned_x_only [blank_ifg] \<noteq> Inl (ValueError (InvalidRefY 0))"
  by (simp add: ref_pixel_def pinned_x_only_def blank_ifg_def)

text \<open>
  Claim C10, amended. When exactly one of \<open>refx\<close>, \<open>refy\<close> is non-zero, \<^verbatim>\<open>ref_pixel\<close>
  raises a \<^verbatim>\<open>ValueError\<close> and never searches: the error is about \<open>refx\<close> when \<open>refx\<close> is
  outside \<open>1 .. width - 1\<close> (in particular when it is the zero one), and otherwise about
  \<open>refy\<close>, which is then the zero one.
\<close>

theorem ref_pixel_one_zero:
  assumes "(config_refx ps = 0) \<noteq> (config_refy ps = 0)"
  shows "ref_pixel fl ps (head # rest) =
           (if config_refx ps < 1 \<or> config_refx ps > WIDTH head - 1
            then Inl (ValueError (InvalidRefX (config_refx ps)))
            else Inl (ValueError (InvalidRefY 0)))"
  using assms by (auto simp: ref_pixel_def config_refx_def config_refy_def)

theorem ref_pixel_one_zero_witness:
  "ref_pixel exact_ops pinned_y_only [blank_ifg] = Inl (ValueError (InvalidRefX 0))"
  using ref_pixel_one_zero [where ps = pinned_y_only and head = blank_ifg and rest = "[]"
      and fl = exact_ops]
  by (simp add: pinned_y_only_def blank_ifg_def config_refx_def config_refy_def)

section \<open>Missing and invalid search parameters\<close>

lemma check_ok_iff:
  "check_ref_pixel_params ps head = Inr () \<longleftrightarrow>
     chipsize_ok ps head \<and> min_frac_ok ps \<and> refnx_ok ps head \<and> refny_ok ps head"
  by (auto simp: check_ref_pixel_params_def chipsize_ok_def min_frac_ok_def refnx_ok_def
      refny_ok_def Let_def split: option.splits)













section \<open>The window scan\<close>

lemma float_less_irrefl: "\<not> float_less a a"
proof (cases a)
  case None
  then show ?thesis by (simp add: float_less_def)
next
  case (Some x)
  then show ?thesis by (cases x) (simp_all add: float_less_def)
qed

lemma float_less_inf: "float_less a b \<Longrightarrow> float_less a (Some PosInf)"
proof -
  assume l: "float_less a b"
  then obtain x y where "a = Some x" "b = Some y" "fval_less x y"
    by (auto simp: float_less_def split: option.splits)
  then show ?thesis
    by (cases x; cases y) (simp_all add: float_less_def)
qed

lemma float_less_below:
  assumes "float_less x m" and "\<not> float_less w m"
  shows "\<not> float_less w x" and "w \<noteq> x"
proof -
  from assms(1) obtain x' m' where x: "x = Some x'" "m = Some m'" "fval_less x' m'"
    by (auto simp: float_less_def split: option.splits)
  show "\<not> float_less w x"
  proof (cases w)
    case None
    then show ?thesis by (simp add: float_less_def)
  next
    case (Some w')
    with assms(2) x have "\<not> fval_less w' m'" by (simp add: float_less_def)
    with x(3) have "\<not> fval_less w' x'"
      by (cases w'; cases x'; cases m') simp_all
    with Some x show ?thesis by (simp add: float_less_def)
  qed
  from assms show "w \<noteq> x" by auto
qed

lemma visit_cases:
  "visit fl ifgs radius thresh c best =
     (if all_valid ifgs radius thresh c \<and> float_less (mean_sd fl ifgs radius c) (fst best)
      then (mean_sd fl ifgs radius c, c) else best)"
  by (simp add: visit_def Let_def)

lemma scan_inv_snoc:
  assumes "scan_inv fl ifgs radius thresh c0 cs best"
  shows "scan_inv fl ifgs radius thresh c0 (cs @ [x]) (visit fl ifgs radius thresh x best)"
proof -
  let ?V = "all_valid ifgs radius thresh" and ?M = "mean_sd fl ifgs radius"
  from assms have low: "\<forall>j<length cs. ?V (cs ! j) \<longrightarrow> \<not> float_less (?M (cs ! j)) (fst best)"
    and sel: "(fst best = Some PosInf \<and> snd best = c0) \<or>
      (\<exists>i<length cs. snd best = cs ! i \<and> ?V (cs ! i) \<and> fst best = ?M (cs ! i) \<and>
         float_less (fst best) (Some PosInf) \<and>
         (\<forall>j<i. ?V (cs ! j) \<longrightarrow> ?M (cs ! j) \<noteq> fst best))"
    unfolding scan_inv_def by blast+
  show ?thesis
  proof (cases "?V x \<and> float_less (?M x) (fst best)")
    case True
    then have eq: "visit fl ifgs radius thresh x best = (?M x, x)"
      by (simp add: visit_cases)
    have old: "\<not> float_less (?M (cs ! j)) (?M x) \<and> ?M (cs ! j) \<noteq> ?M x"
      if "j < length cs" "?V (cs ! j)" for j
      using float_less_below [of "?M x" "fst best" "?M (cs ! j)"] True low that by blast
    have "\<forall>j<length (cs @ [x]). ?V ((cs @ [x]) ! j) \<longrightarrow>
        \<not> float_less (?M ((cs @ [x]) ! j)) (?M x)"
    proof (intro allI impI)
      fix j assume j: "j < length (cs @ [x])" and v: "?V ((cs @ [x]) ! j)"
      show "\<not> float_less (?M ((cs @ [x]) ! j)) (?M x)"
      proof (cases "j < length cs")
        case True
        with v old [of j] show ?thesis by (simp add: nth_append)
      next
        case False
        with j have "j = length cs" by simp
        then show ?thesis by (simp add: float_less_irrefl)
      qed
    qed
    moreover have "\<forall>j<length cs. ?V ((cs @ [x]) ! j) \<longrightarrow> ?M ((cs @ [x]) ! j) \<noteq> ?M x"
      using old by (simp add: nth_append)
    moreover have "float_less (?M x) (Some PosInf)"
      using True float_less_inf by blast
    ultimately show ?thesis
      unfolding scan_inv_def eq using True
      by (intro conjI disjI2 exI [of _ "length cs"]) simp_all
  next
    case False
    then have eq: "visit fl ifgs radius thresh x best = best"
      by (auto simp: visit_cases)
    have "\<forall>j<length (cs @ [x]). ?V ((cs @ [x]) ! j) \<longrightarrow>
        \<not> float_less (?M ((cs @ [x]) ! j)) (fst best)"
    proof (intro allI impI)
      fix j assume j: "j < length (cs @ [x])" and v: "?V ((cs @ [x]) ! j)"
      show "\<not> float_less (?M ((cs @ [x]) ! j)) (fst best)"
      proof (cases "j < length cs")
        case True
        with v low show ?thesis by (simp add: nth_append)
      next
        case nl: False
        with j have "j = length cs" by simp
        with v False show ?thesis by simp
      qed
    qed
    moreover have "(fst best = Some PosInf \<and> snd best = c0) \<or>
      (\<exists>i<length (cs @ [x]). snd best = (cs @ [x]) ! i \<and> ?V ((cs @ [x]) ! i) \<and>
         fst best = ?M ((cs @ [x]) ! i) \<and> float_less (fst best) (Some PosInf) \<and>
         (\<forall>j<i. ?V ((cs @ [x]) ! j) \<longrightarrow> ?M ((cs @ [x]) ! j) \<noteq> fst best))"
    proof (cases "fst best = Some PosInf \<and> snd best = c0")
      case True
      then show ?thesis by blast
    next
      case False
      with sel obtain i where i: "i < length cs" "snd best = cs ! i" "?V (cs ! i)"
        "fst best = ?M (cs ! i)" "float_less (fst best) (Some PosInf)"
        "\<forall>j<i. ?V (cs ! j) \<longrightarrow> ?M (cs ! j) \<noteq> fst best" by blast
      have "\<forall>j<i. ?V ((cs @ [x]) ! j) \<longrightarrow> ?M ((cs @ [x]) ! j) \<noteq> fst best"
        using i(1,6) by (simp add: nth_append)
      with i(1-5) show ?thesis
        by (intro disjI2 exI [of _ i]) (simp add: nth_append)
    qed
    ultimately show ?thesis
      unfolding scan_inv_def eq by blast
  qed
qed

lemma scan_inv_fold:
  "scan_inv fl ifgs radius thresh c0 cs
     (fold (visit fl ifgs radius thresh) cs (Some PosInf, c0))"
proof (induction cs rule: rev_induct)
  case Nil
  show ?case by (simp add: scan_inv_def)
next
  case (snoc x cs)
  then show ?case by (simp add: scan_inv_snoc)
qed

lemma scan_rows_fold:
  "step width refnx radius = Inr xs \<Longrightarrow>
   scan_rows fl ifgs width refnx radius thresh ys best =
     Inr (fold (visit fl ifgs radius thresh) (List.product ys xs) best)"
  by (induction ys arbitrary: best) (simp_all add: fold_map comp_def)

lemma validated_step:
  assumes "3 \<le> c" and "c mod 2 \<noteq> 0" and "1 \<le> n" and "n \<le> d - (c - 1)"
  shows "\<exists>zs. step d n (c div 2) = Inr zs \<and> (\<forall>z\<in>set zs. 1 \<le> z)"
proof -
  have r: "1 \<le> c div 2" and c: "c - 1 = 2 * (c div 2)"
    using assms(1,2) by presburger+
  have d: "3 \<le> d" using assms by linarith
  consider "n = 1" | "n = 2" | "3 \<le> n" using assms(3) by linarith
  then show ?thesis
  proof cases
    case 1
    with d show ?thesis by (simp add: step_one)
  next
    case 2
    with assms(4) c r show ?thesis by (simp add: step_two)
  next
    case 3
    let ?st = "(d - 2 * (c div 2)) div (n - 1)"
    have "n - 1 \<le> d - 2 * (c div 2)" using assms(4) c by linarith
    moreover have "0 < n - 1" using 3 by simp
    ultimately have "(n - 1) div (n - 1) \<le> ?st"
      by (intro zdiv_mono1)
    with \<open>0 < n - 1\<close> have st: "1 \<le> ?st" by simp
    then have "step d n (c div 2) =
        Inr (map (\<lambda>k. c div 2 + int k * ?st) [0 ..< xrange_len (c div 2) d ?st])"
      using 3 by (simp add: step_general)
    moreover have "\<forall>k. 1 \<le> c div 2 + int k * ?st"
      using r st by (simp add: add_increasing2)
    ultimately show ?thesis by auto
  qed
qed

lemma product_fst_ge:
  "\<forall>y\<in>set ys. (1::int) \<le> y \<Longrightarrow> c \<in> set (List.product ys xs) \<Longrightarrow> c \<noteq> (0, 0)"
  by auto

lemma validated_steps:
  assumes "check_ref_pixel_params ps head = Inr ()"
    and "REFNX ps = Some refnx" and "REFNY ps = Some refny"
    and "REF_CHIP_SIZE ps = Some chipsize"
  shows "\<exists>ys xs. step (FILE_LENGTH head) refny (chipsize div 2) = Inr ys \<and>
            step (WIDTH head) refnx (chipsize div 2) = Inr xs \<and> (\<forall>y\<in>set ys. 1 \<le> y)"
proof -
  from assms have ok: "3 \<le> chipsize" "chipsize mod 2 \<noteq> 0"
    "1 \<le> refnx" "refnx \<le> WIDTH head - (chipsize - 1)"
    "1 \<le> refny" "refny \<le> FILE_LENGTH head - (chipsize - 1)"
    by (simp_all add: check_ok_iff chipsize_ok_def refnx_ok_def refny_ok_def)
  from validated_step [OF ok(1,2,5,6)] validated_step [OF ok(1,2,3,4)]
  show ?thesis by blast
qed

lemma ref_pixel_search_result:
  assumes "config_refx ps = 0" and "config_refy ps = 0"
    and "check_ref_pixel_params ps head = Inr ()"
    and "REFNX ps = Some refnx" and "REFNY ps = Some refny"
    and "REF_CHIP_SIZE ps = Some chipsize" and "REF_MIN_FRAC ps = Some min_frac"
    and "step (FILE_LENGTH head) refny (chipsize div 2) = Inr ys"
    and "step (WIDTH head) refnx (chipsize div 2) = Inr xs"
    and "best = fold (visit fl (head # rest) (chipsize div 2) (threshold fl min_frac chipsize))
                 (List.product ys xs) (Some PosInf, 0, 0)"
  shows "ref_pixel fl ps (head # rest) =
           (if snd best = (0, 0) then Inl RefPixelError else Inr (snd best))"
  using assms
  by (simp add: ref_pixel_def ref_pixel_search_def config_refx_def config_refy_def
      scan_rows_fold [where xs = xs] Let_def)

lemma best_first_best:
  assumes inv: "scan_inv fl ifgs radius thresh (0, 0) cs best"
    and ne: "snd best \<noteq> (0, 0)"
  shows "first_best fl ifgs radius thresh cs (snd best)"
proof -
  let ?V = "all_valid ifgs radius thresh" and ?M = "mean_sd fl ifgs radius"
  from inv ne obtain i where i: "i < length cs" "snd best = cs ! i" "?V (cs ! i)"
    "fst best = ?M (cs ! i)" "float_less (fst best) (Some PosInf)"
    and first: "\<forall>j<i. ?V (cs ! j) \<longrightarrow> ?M (cs ! j) \<noteq> fst best"
    and low: "\<forall>j<length cs. ?V (cs ! j) \<longrightarrow> \<not> float_less (?M (cs ! j)) (fst best)"
    unfolding scan_inv_def by blast
  have "\<forall>j<length cs. ?V (cs ! j) \<longrightarrow>
      \<not> float_less (?M (cs ! j)) (?M (snd best)) \<and> (j < i \<longrightarrow> ?M (cs ! j) \<noteq> ?M (snd best))"
    using low first i(2,4) by simp
  with i show ?thesis
    unfolding first_best_def by (intro exI [of _ i]) simp
qed

text \<open>
  Claim C3. When \<^verbatim>\<open>ref_pixel\<close> returns a centre from the search, that centre is one of
  the candidates (the product of the row and column centres, rows outermost), in every
  interferogram its window holds more cells that are not NaN than the threshold
  \<^verbatim>\<open>min_frac * chipsize * chipsize\<close>, no valid candidate has a lower mean standard
  deviation, and no valid candidate scanned before it has the same one: the first
  candidate found wins a tie. The threshold and the mean standard deviations are the
  floats that the code computes, for any rounding of the float operations.
\<close>

theorem ref_pixel_lowest_mean_sd:
  assumes "config_refx ps = 0" and "config_refy ps = 0"
    and "REFNX ps = Some refnx" and "REFNY ps = Some refny"
    and "REF_CHIP_SIZE ps = Some chipsize" and "REF_MIN_FRAC ps = Some min_frac"
    and res: "ref_pixel fl ps (head # rest) = Inr c"
  shows "\<exists>ys xs. step (FILE_LENGTH head) refny (chipsize div 2) = Inr ys \<and>
           step (WIDTH head) refnx (chipsize div 2) = Inr xs \<and>
           first_best fl (head # rest) (chipsize div 2) (threshold fl min_frac chipsize)
             (List.product ys xs) c"
proof -
  let ?r = "chipsize div 2" and ?t = "threshold fl min_frac chipsize"
  have chk: "check_ref_pixel_params ps head = Inr ()"
    using res assms(1,2)
    by (cases "check_ref_pixel_params ps head")
       (simp_all add: ref_pixel_def config_refx_def config_refy_def)
  from validated_steps [OF chk assms(3-5)] obtain ys xs where
    st: "step (FILE_LENGTH head) refny ?r = Inr ys" "step (WIDTH head) refnx ?r = Inr xs"
    by blast
  define best where
    "best = fold (visit fl (head # rest) ?r ?t) (List.product ys xs) (Some PosInf, 0, 0)"
  from ref_pixel_search_result [OF assms(1,2) chk assms(3-6) st best_def] res
  have c: "snd best \<noteq> (0, 0)" "c = snd best"
    by (auto split: if_splits)
  have "scan_inv fl (head # rest) ?r ?t (0, 0) (List.product ys xs) best"
    unfolding best_def by (rule scan_inv_fold)
  from best_first_best [OF this c(1)] c(2) st show ?thesis by auto
qed

text \<open>
  Claim C5, as stated: the search raises \<^verbatim>\<open>RefPixelError\<close> only when no candidate window
  is valid in every interferogram. On a grid whose cells are all \<^verbatim>\<open>inf\<close> every window is
  valid (an infinity is not NaN), but the standard deviation of a window is NaN, the
  comparison with \<^verbatim>\<open>min_sd\<close> fails, and \<^verbatim>\<open>RefPixelError\<close> is raised.
\<close>

theorem search_exhaustion_counterexample:
  "step (FILE_LENGTH inf_ifg) 1 1 = Inr [1] \<and> step (WIDTH inf_ifg) 2 1 = Inr [1, 2] \<and>
   all_valid [inf_ifg] 1 (threshold exact_ops (1 / 2) 3) (1, 1) \<and>
   check_ref_pixel_params search_params inf_ifg = Inr () \<and>
   ref_pixel exact_ops search_params [inf_ifg] = Inl RefPixelError"
proof -
  have s: "step (FILE_LENGTH inf_ifg) 1 1 = Inr [1]" "step (WIDTH inf_ifg) 2 1 = Inr [1, 2]"
    by (simp_all add: inf_ifg_def step_one step_two)
  have w: "not_nan (window (phase_data inf_ifg) 1 1 1) = replicate 9 (Some PosInf)"
    "not_nan (window (phase_data inf_ifg) 1 2 1) = replicate 9 (Some PosInf)"
    by (simp_all add: inf_ifg_def window_def py_slice_def not_nan_def numeral_eq_Suc)
  have t: "threshold exact_ops (1 / 2) 3 = 9 / 2"
    by (simp add: threshold_def exact_ops_def)
  have v: "all_valid [inf_ifg] 1 (9 / 2) (1, 1)" "all_valid [inf_ifg] 1 (9 / 2) (1, 2)"
    by (simp_all add: all_valid_def w)
  have f: "finite_values (replicate 9 (Some PosInf)) = None"
    by (simp add: numeral_eq_Suc)
  have m: "mean_sd exact_ops [inf_ifg] 1 (1, 1) = None" "mean_sd exact_ops [inf_ifg] 1 (1, 2) = None"
    by (simp_all add: mean_sd_def w np_std_def np_mean_def f)
  have c: "check_ref_pixel_params search_params inf_ifg = Inr ()"
    by (simp add: check_ref_pixel_params_def search_params_def inf_ifg_def)
  have "ref_pixel exact_ops search_params [inf_ifg] = Inl RefPixelError"
    using c s
    by (simp add: ref_pixel_def ref_pixel_search_def search_params_def visit_cases t v m
        float_less_def)
  moreover from v(1) have "all_valid [inf_ifg] 1 (threshold exact_ops (1 / 2) 3) (1, 1)"
    by (simp only: t)
  ultimately show ?thesis using s c by blast
qed

text \<open>
  Claim C5, amended. With no pinned pixel and parameters that pass the validation,
  \<^verbatim>\<open>ref_pixel\<close> raises \<^verbatim>\<open>RefPixelError\<close> exactly when no candidate window is valid in
  every interferogram with a mean standard deviation below \<^verbatim>\<open>inf\<close> (a mean that is NaN
  or \<^verbatim>\<open>inf\<close> is never selected), and returns one of the candidates when there is such a
  candidate. Validity is judged against the threshold as the code computes it.
\<close>

theorem ref_pixel_search_exhaustion:
  assumes "config_refx ps = 0" and "config_refy ps = 0"
    and chk: "check_ref_pixel_params ps head = Inr ()"
    and "REFNX ps = Some refnx" and "REFNY ps = Some refny"
    and "REF_CHIP_SIZE ps = Some chipsize" and "REF_MIN_FRAC ps = Some min_frac"
    and "radius = chipsize div 2"
    and "thresh = threshold fl min_frac chipsize"
  shows "\<exists>ys xs. step (FILE_LENGTH head) refny radius = Inr ys \<and>
           step (WIDTH head) refnx radius = Inr xs \<and>
           (ref_pixel fl ps (head # rest) = Inl RefPixelError \<longleftrightarrow>
              \<not> (\<exists>c\<in>set (List.product ys xs). all_valid (head # rest) radius thresh c \<and>
                   float_less (mean_sd fl (head # rest) radius c) (Some PosInf))) \<and>
           ((\<exists>c\<in>set (List.product ys xs). all_valid (head # rest) radius thresh c \<and>
                float_less (mean_sd fl (head # rest) radius c) (Some PosInf)) \<longrightarrow>
              (\<exists>c\<in>set (List.product ys xs). ref_pixel fl ps (head # rest) = Inr c))"
proof -
  let ?cs = "\<lambda>ys xs. List.product ys (xs :: int list)"
  let ?V = "all_valid (head # rest) radius thresh" and ?M = "mean_sd fl (head # rest) radius"
  from validated_steps [OF chk assms(4-6)] assms(8) obtain ys xs where
    st: "step (FILE_LENGTH head) refny radius = Inr ys" "step (WIDTH head) refnx radius = Inr xs"
    and pos: "\<forall>y\<in>set ys. 1 \<le> y" by blast
  define best where
    "best = fold (visit fl (head # rest) radius thresh) (?cs ys xs) (Some PosInf, 0, 0)"
  have res: "ref_pixel fl ps (head # rest) =
      (if snd best = (0, 0) then Inl RefPixelError else Inr (snd best))"
    using ref_pixel_search_result [OF assms(1,2) chk assms(4-7), of ys xs best fl rest]
      st best_def assms(8,9) by simp
  have inv: "scan_inv fl (head # rest) radius thresh (0, 0) (?cs ys xs) best"
    unfolding best_def by (rule scan_inv_fold)
  then have low: "\<forall>j<length (?cs ys xs). ?V (?cs ys xs ! j) \<longrightarrow>
      \<not> float_less (?M (?cs ys xs ! j)) (fst best)"
    and sel: "(fst best = Some PosInf \<and> snd best = (0, 0)) \<or>
      (\<exists>i<length (?cs ys xs). snd best = ?cs ys xs ! i \<and> ?V (?cs ys xs ! i) \<and>
         fst best = ?M (?cs ys xs ! i) \<and> float_less (fst best) (Some PosInf))"
    unfolding scan_inv_def by blast+
  have none: "snd best = (0, 0) \<longleftrightarrow>
      \<not> (\<exists>c\<in>set (?cs ys xs). ?V c \<and> float_less (?M c) (Some PosInf))"
  proof
    assume z: "snd best = (0, 0)"
    have "fst best = Some PosInf"
    proof (rule ccontr)
      assume "fst best \<noteq> Some PosInf"
      with sel obtain i where "i < length (?cs ys xs)" "snd best = ?cs ys xs ! i" by blast
      then have "snd best \<in> set (?cs ys xs)" by (metis nth_mem)
      from product_fst_ge [OF pos this] z show False by simp
    qed
    with low have "\<forall>j<length (?cs ys xs). ?V (?cs ys xs ! j) \<longrightarrow>
        \<not> float_less (?M (?cs ys xs ! j)) (Some PosInf)" by simp
    then show "\<not> (\<exists>c\<in>set (?cs ys xs). ?V c \<and> float_less (?M c) (Some PosInf))"
      by (metis in_set_conv_nth)
  next
    assume no: "\<not> (\<exists>c\<in>set (?cs ys xs). ?V c \<and> float_less (?M c) (Some PosInf))"
    show "snd best = (0, 0)"
    proof (rule ccontr)
      assume "snd best \<noteq> (0, 0)"
      with sel obtain i where "i < length (?cs ys xs)" "?V (?cs ys xs ! i)"
        "fst best = ?M (?cs ys xs ! i)" "float_less (fst best) (Some PosInf)" by blast
      with no show False by (metis nth_mem)
    qed
  qed
  have mem: "snd best \<in> set (?cs ys xs)" if "snd best \<noteq> (0, 0)"
  proof -
    from sel that obtain i where "i < length (?cs ys xs)" "snd best = ?cs ys xs ! i" by blast
    then show ?thesis by (metis nth_mem)
  qed
  from st res none mem show ?thesis
    by (intro exI [of _ ys] exI [of _ xs]) auto
qed

section \<open>The search on example grids\<close>

lemma steps_example: "step 3 1 1 = Inr [1]" "step 4 2 1 = Inr [1, 2]"
  by (simp_all add: step_one step_two)

lemma threshold_example: "threshold exact_ops (1 / 2) 3 = 9 / 2"
  by (simp add: threshold_def exact_ops_def)

lemma ramp_window_1: "not_nan (window (phase_data ramp_ifg) 1 1 1) =
   [Some (Fin 0), Some (Fin 1), Some (Fin 1), Some (Fin 0), Some (Fin 1), Some (Fin 1),
    Some (Fin 0), Some (Fin 1), Some (Fin 1)]"
  by (simp add: ramp_ifg_def window_def py_slice_def not_nan_def)

lemma ramp_window_2: "not_nan (window (phase_data ramp_ifg) 1 2 1) =
   [Some (Fin 1), Some (Fin 1), Some (Fin 1), Some (Fin 1), Some (Fin 1), Some (Fin 1),
    Some (Fin 1), Some (Fin 1), Some (Fin 1)]"
  by (simp add: ramp_ifg_def window_def py_slice_def not_nan_def)

lemma ramp_scores:
  "mean_sd exact_ops [ramp_ifg] 1 (1, 1) = Some (Fin (sqrt (2 / 9)))"
  "mean_sd exact_ops [ramp_ifg] 1 (1, 2) = Some (Fin 0)"
  by (simp_all add: mean_sd_def ramp_window_1 ramp_window_2 np_std_def np_mean_def exact_ops_def
      power2_eq_square)

lemma ramp_valid:
  "all_valid [ramp_ifg] 1 (9 / 2) (1, 1)" "all_valid [ramp_ifg] 1 (9 / 2) (1, 2)"
  by (simp_all add: all_valid_def ramp_window_1 ramp_window_2)

lemma ramp_result: "ref_pixel exact_ops search_params [ramp_ifg] = Inr (1, 2)"
proof -
  have "check_ref_pixel_params search_params ramp_ifg = Inr ()"
    by (simp add: check_ref_pixel_params_def search_params_def ramp_ifg_def)
  moreover have "step (FILE_LENGTH ramp_ifg) 1 1 = Inr [1]" "step (WIDTH ramp_ifg) 2 1 = Inr [1, 2]"
    by (simp_all add: ramp_ifg_def steps_example)
  ultimately show ?thesis
    by (simp add: ref_pixel_def ref_pixel_search_def search_params_def visit_cases
        threshold_example ramp_scores ramp_valid float_less_def)
qed

theorem ref_pixel_lowest_mean_sd_witness:
  "ref_pixel exact_ops search_params [ramp_ifg] = Inr (1, 2) \<and>
   first_best exact_ops [ramp_ifg] 1 (9 / 2) [(1, 1), (1, 2)] (1, 2)"
proof -
  have s: "step (FILE_LENGTH ramp_ifg) 1 (3 div 2) = Inr [1]"
          "step (WIDTH ramp_ifg) 2 (3 div 2) = Inr [1, 2]"
    by (simp_all add: ramp_ifg_def steps_example)
  from ref_pixel_lowest_mean_sd [where ps = search_params and refnx = 2 and refny = 1
      and chipsize = 3 and min_frac = "1 / 2" and head = ramp_ifg and rest = "[]"
      and c = "(1, 2)" and fl = exact_ops]
  show ?thesis
    using ramp_result s
    by (simp add: search_params_def config_refx_def config_refy_def threshold_example)
qed

lemma nan_windows:
  "not_nan (window (phase_data nan_ifg) 1 1 1) = []"
  "not_nan (window (phase_data nan_ifg) 1 2 1) = []"
  by (simp_all add: nan_ifg_def window_def py_slice_def not_nan_def)

theorem ref_pixel_search_exhaustion_witness:
  "ref_pixel exact_ops search_params [nan_ifg] = Inl RefPixelError"
proof -
  have s: "step (FILE_LENGTH nan_ifg) 1 1 = Inr [1]"
          "step (WIDTH nan_ifg) 2 1 = Inr [1, 2]"
    by (simp_all add: nan_ifg_def steps_example)
  have c: "check_ref_pixel_params search_params nan_ifg = Inr ()"
    by (simp add: check_ref_pixel_params_def search_params_def nan_ifg_def)
  have v: "\<not> all_valid [nan_ifg] 1 (9 / 2) (1, 1)" "\<not> all_valid [nan_ifg] 1 (9 / 2) (1, 2)"
    by (simp_all add: all_valid_def nan_windows)
  from ref_pixel_search_exhaustion [where ps = search_params and head = nan_ifg and refnx = 2
      and refny = 1 and chipsize = 3 and min_frac = "1 / 2" and radius = 1 and thresh = "9 / 2"
      and rest = "[]" and fl = exact_ops]
  show ?thesis
    using s c v
    by (simp add: search_params_def config_refx_def config_refy_def threshold_example)
qed

section \<open>Removing the root\<close>

lemma remove_fold_filter:
  "distinct (map fst m) \<Longrightarrow>
   fold (\<lambda>k m. if map_of m k = Some None then AList.delete k m else m) ks m =
     filter (\<lambda>e. \<not> (fst e \<in> set ks \<and> snd e = None)) m"
proof (induction ks arbitrary: m)
  case Nil
  then show ?case by simp
next
  case (Cons k ks)
  let ?m' = "if map_of m k = Some None then AList.delete k m else m"
  have d: "distinct (map fst ?m')"
    using Cons.prems by (simp add: distinct_delete)
  have "?m' = filter (\<lambda>e. \<not> (fst e = k \<and> snd e = None)) m"
  proof (cases "map_of m k = Some None")
    case True
    then have "(k, None) \<in> set m" by (rule map_of_SomeD)
    with Cons.prems have "\<forall>e\<in>set m. fst e = k \<longrightarrow> snd e = None"
      by (metis eq_key_imp_eq_value prod.collapse)
    then have "filter (\<lambda>e. k \<noteq> fst e) m = filter (\<lambda>e. \<not> (fst e = k \<and> snd e = None)) m"
      by (intro filter_cong) auto
    with True show ?thesis by (simp add: AList.delete_eq case_prod_unfold)
  next
    case False
    with Cons.prems have "\<forall>e\<in>set m. \<not> (fst e = k \<and> snd e = None)"
      by (metis map_of_is_SomeI prod.collapse)
    with False show ?thesis by simp
  qed
  then have "filter (\<lambda>e. \<not> (fst e \<in> set ks \<and> snd e = None)) ?m' =
      filter (\<lambda>e. \<not> (fst e \<in> set (k # ks) \<and> snd e = None)) m"
    by (auto intro: filter_cong)
  with Cons.IH [OF d] show ?case by simp
qed

lemma remove_root_node_filter:
  "distinct (map fst mst) \<Longrightarrow> remove_root_node mst = filter (\<lambda>e. snd e \<noteq> None) mst"
  by (auto simp: remove_root_node_def remove_fold_filter intro: filter_cong)

lemma remove_root_node_count:
  "distinct (map fst mst) \<Longrightarrow>
   length (remove_root_node mst) + length (filter (\<lambda>e. snd e = None) mst) = length mst"
  using sum_length_filter_compl [of "\<lambda>e. snd e = None" mst]
  by (simp add: remove_root_node_filter)

text \<open>
  Claim C8, as stated: removing the root takes exactly one entry away. The tree of a
  graph that is not connected has a root for every component, each mapped to \<^verbatim>\<open>None\<close>;
  on the forest \<open>{10: None, 30: 10, 20: None}\<close> the loop deletes both roots and leaves one
  entry of three.
\<close>

theorem remove_root_count_counterexample:
  "distinct (map fst forest_mst) \<and> remove_root_node forest_mst = [(30, Some 10)] \<and>
   length (remove_root_node forest_mst) + 1 \<noteq> length forest_mst"
  by (simp add: forest_mst_def remove_root_node_def AList.delete_eq)

text \<open>
  Claim C8, amended. \<^verbatim>\<open>_remove_root_node\<close> removes every entry that is mapped to
  \<^verbatim>\<open>None\<close> and nothing else: the number of entries drops by the number of entries
  mapped to \<^verbatim>\<open>None\<close> (by exactly one when there is exactly one such entry, the single
  root of a tree), every entry whose parent is a node is kept, and what is left are
  the entries of the input that have a parent.
\<close>

theorem remove_root_node_all_roots:
  assumes "distinct (map fst mst)"
  shows "length (remove_root_node mst) + length (filter (\<lambda>e. snd e = None) mst) = length mst \<and>
         (length (filter (\<lambda>e. snd e = None) mst) = 1 \<longrightarrow>
            length (remove_root_node mst) + 1 = length mst) \<and>
         (\<forall>k p. (k, Some p) \<in> set mst \<longrightarrow> (k, Some p) \<in> set (remove_root_node mst)) \<and>
         (\<forall>e\<in>set (remove_root_node mst). e \<in> set mst \<and> snd e \<noteq> None)"
  using remove_root_node_count [OF assms] assms
  by (auto simp: remove_root_node_filter)

theorem remove_root_node_all_roots_witness:
  "remove_root_node triangle_mst = [(1, Some 0), (2, Some 1)] \<and>
   length (remove_root_node triangle_mst) + 1 = length triangle_mst"
  using remove_root_node_all_roots [of triangle_mst]
  by (simp add: triangle_mst_def remove_root_node_def AList.delete_eq)

section \<open>Epoch counts\<close>

lemma index_of_less: "x \<in> set ds \<Longrightarrow> index_of ds x < length ds"
  unfolding index_of_def
  by (induction ds) auto

lemma index_of_nth: "x \<in> set ds \<Longrightarrow> ds ! index_of ds x = x"
  unfolding index_of_def
  by (induction ds) auto

lemma index_of_distinct: "distinct ds \<Longrightarrow> j < length ds \<Longrightarrow> index_of ds (ds ! j) = j"
  unfolding index_of_def
proof (induction ds arbitrary: j)
  case Nil
  then show ?case by simp
next
  case (Cons d ds)
  then show ?case by (cases j) auto
qed

lemma index_of_eq_iff:
  assumes "distinct ds" and "j < length ds" and "x \<in> set ds"
  shows "index_of ds x = j \<longleftrightarrow> x = ds ! j"
  using assms index_of_nth index_of_distinct by metis

lemma count_index:
  assumes "distinct ds" and "j < length ds" and "set cs \<subseteq> set ds"
  shows "length (filter (\<lambda>v. v = j) (map (index_of ds) cs)) = count_list cs (ds ! j)"
  using assms(3)
proof (induction cs)
  case Nil
  then show ?case by simp
next
  case (Cons c cs)
  then have "c \<in> set ds" by simp
  from index_of_eq_iff [OF assms(1,2) this] Cons show ?case by auto
qed

lemma bin_nat:
  assumes "i \<le> m" and "v \<le> m" and "1 \<le> m"
  shows "(i * m \<le> v * Suc m \<and>
          (if i = m then v * Suc m \<le> Suc i * m else v * Suc m < Suc i * m)) \<longleftrightarrow> v = i"
proof (cases v i rule: linorder_cases)
  case less
  then have "Suc v * m \<le> i * m" by (intro mult_le_mono1) simp
  moreover have "v * Suc m < Suc v * m" using less assms(1) by simp
  ultimately show ?thesis using less by simp
next
  case equal
  with assms show ?thesis by auto
next
  case greater
  then have "Suc i * Suc m \<le> v * Suc m" by (intro mult_le_mono1) simp
  moreover have "Suc i * m < Suc i * Suc m" by simp
  ultimately have "\<not> v * Suc m \<le> Suc i * m" by linarith
  with greater show ?thesis by (auto split: if_splits)
qed

lemma in_bin_index:
  assumes "i \<le> m" and "v \<le> m" and "1 \<le> m"
  shows "in_bin 0 (real m) (Suc m) i v \<longleftrightarrow> v = i"
proof -
  have e: "bin_edge 0 (real m) (Suc m) j = real (j * m) / real (Suc m)" for j
    by (simp add: bin_edge_def)
  have "in_bin 0 (real m) (Suc m) i v \<longleftrightarrow>
      (real (i * m) \<le> real (v * Suc m) \<and>
        (if i = m then real (v * Suc m) \<le> real (Suc i * m)
         else real (v * Suc m) < real (Suc i * m)))"
    unfolding in_bin_def e
    by (simp only: pos_divide_le_eq pos_le_divide_eq pos_less_divide_eq of_nat_0_less_iff
        zero_less_Suc of_nat_mult nat.inject)
  also have "\<dots> \<longleftrightarrow> (i * m \<le> v * Suc m \<and>
        (if i = m then v * Suc m \<le> Suc i * m else v * Suc m < Suc i * m))"
    by (simp only: of_nat_le_iff of_nat_less_iff)
  also have "\<dots> \<longleftrightarrow> v = i" by (rule bin_nat [OF assms])
  finally show ?thesis .
qed

lemma in_bin_single: "in_bin (- (1 / 2)) (1 / 2) (Suc 0) 0 0"
  by (simp add: in_bin_def bin_edge_def)

lemma inverse_set:
  assumes "distinct ds" and "set ds = set cs"
  shows "set (map (index_of ds) cs) = {0 ..< length ds}"
proof
  show "set (map (index_of ds) cs) \<subseteq> {0 ..< length ds}"
    using assms(2) by (auto simp: index_of_less)
  show "{0 ..< length ds} \<subseteq> set (map (index_of ds) cs)"
  proof
    fix j assume "j \<in> {0 ..< length ds}"
    then have j: "j < length ds" by simp
    then have "ds ! j \<in> set cs" using assms(2) nth_mem by blast
    moreover have "index_of ds (ds ! j) = j" by (rule index_of_distinct [OF assms(1) j])
    ultimately show "j \<in> set (map (index_of ds) cs)" by force
  qed
qed

lemma histogram_inverse:
  assumes d: "distinct ds" and s: "set ds = set cs" and ne: "cs \<noteq> []"
    and n: "n = map (index_of ds) cs"
  shows "histogram n (length (remdups n)) =
           Inr (map (\<lambda>j. count_list cs (ds ! j)) [0 ..< length ds])"
proof -
  define m where "m = length ds - 1"
  have "ds \<noteq> []" using s ne by auto
  then have k: "length ds = Suc m" by (simp add: m_def)
  have sn: "set n = {0 ..< Suc m}"
    unfolding n using inverse_set [OF d s] k by simp
  have bins: "length (remdups n) = Suc m"
    by (simp add: length_remdups_card_conv sn)
  have nn: "n \<noteq> []" using ne n by simp
  have mn: "Min (set n) = 0" unfolding sn by (intro Min_eqI) auto
  have mx: "Max (set n) = m" unfolding sn by (intro Max_eqI) auto
  define MN :: real where "MN = (if (0::real) = real m then 0 - 1 / 2 else 0)"
  define MX :: real where "MX = (if (0::real) = real m then real m + 1 / 2 else real m)"
  have bin: "filter (in_bin MN MX (Suc m) i) n = filter (\<lambda>v. v = i) n" if i: "i < Suc m" for i
  proof (cases "m = 0")
    case True
    with i sn have z: "\<forall>v\<in>set n. v = 0" "i = 0" by auto
    from True have e: "MN = - (1 / 2)" "MX = 1 / 2" by (simp_all add: MN_def MX_def)
    have "in_bin MN MX (Suc m) i 0"
      unfolding e True z(2) by (rule in_bin_single)
    with z show ?thesis
      by (intro filter_cong) auto
  next
    case False
    then have "MN = 0" "MX = real m" by (simp_all add: MN_def MX_def)
    moreover have "\<forall>v\<in>set n. in_bin 0 (real m) (Suc m) i v \<longleftrightarrow> v = i"
      using in_bin_index [of i m] i False sn by auto
    ultimately show ?thesis
      by (intro filter_cong) auto
  qed
  have "histogram n (Suc m) =
      Inr (map (\<lambda>i. length (filter (in_bin MN MX (Suc m) i) n)) [0 ..< Suc m])"
    unfolding histogram_def MN_def MX_def using nn
    by (simp add: mn mx del: upt_Suc)
  also have "map (\<lambda>i. length (filter (in_bin MN MX (Suc m) i) n)) [0 ..< Suc m] =
      map (\<lambda>i. length (filter (\<lambda>v. v = i) n)) [0 ..< Suc m]"
  proof (rule map_cong [OF refl])
    fix i assume "i \<in> set [0 ..< Suc m]"
    then have "i < Suc m" by (simp del: upt_Suc)
    then show "length (filter (in_bin MN MX (Suc m) i) n) = length (filter (\<lambda>v. v = i) n)"
      by (simp only: bin)
  qed
  also have "\<dots> = map (\<lambda>j. count_list cs (ds ! j)) [0 ..< length ds]"
    unfolding k n
  proof (rule map_cong [OF refl])
    fix j assume "j \<in> set [0 ..< Suc m]"
    then have "j < length ds" by (simp add: k del: upt_Suc)
    from count_index [OF d this, of cs] s
    show "length (filter (\<lambda>v. v = j) (map (index_of ds) cs)) = count_list cs (ds ! j)"
      by simp
  qed
  finally show ?thesis by (simp only: bins)
qed

lemma sum_counts:
  assumes "distinct ds" and "set ds = set cs"
  shows "sum_list (map (\<lambda>j. count_list cs (ds ! j)) [0 ..< length ds]) = length cs"
proof -
  have "map (\<lambda>j. count_list cs (ds ! j)) [0 ..< length ds] = map (count_list cs) ds"
    by (rule nth_equalityI) simp_all
  then have "sum_list (map (\<lambda>j. count_list cs (ds ! j)) [0 ..< length ds]) =
      sum (count_list cs) (set ds)"
    using assms(1) by (simp add: sum_list_distinct_conv_sum_set)
  also have "\<dots> = length cs"
    using assms(2) by (simp add: sum_count_set)
  finally show ?thesis .
qed

text \<open>
  Claim C9. On a stack that is not empty \<^verbatim>\<open>get_epochs\<close> returns an \<^verbatim>\<open>EpochList\<close> whose
  dates are the distinct master and slave dates in ascending order, in which the repeat
  count of every date is the number of its occurrences among the masters and slaves of
  the whole stack, so that the repeat counts add up to twice the number of
  interferograms.
\<close>

theorem get_epochs_repeat_counts:
  assumes "ifgs \<noteq> []"
  shows "\<exists>el. get_epochs ifgs = Inr el \<and>
           distinct (dates el) \<and> sorted (dates el) \<and>
           set (dates el) = set (map MASTER ifgs @ map SLAVE ifgs) \<and>
           length (repeat el) = length (dates el) \<and>
           (\<forall>j<length (dates el).
              repeat el ! j = count_list (map MASTER ifgs @ map SLAVE ifgs) (dates el ! j)) \<and>
           sum_list (repeat el) = 2 * length ifgs"
proof -
  define cs where "cs = map MASTER ifgs @ map SLAVE ifgs"
  define ds where "ds = sort (remdups cs)"
  have d: "distinct ds" and s: "set ds = set cs" and so: "sorted ds"
    by (simp_all add: ds_def)
  have ne: "cs \<noteq> []" using assms by (simp add: cs_def)
  have len: "length cs = 2 * length ifgs" by (simp add: cs_def)
  let ?rep = "map (\<lambda>j. count_list cs (ds ! j)) [0 ..< length ds]"
  have "get_epochs ifgs = Inr \<lparr>dates = ds, repeat = ?rep,
      spans = map (\<lambda>i. real_of_int (ds ! i - ds ! 0) / 365.25) [0 ..< length ds]\<rparr>"
    unfolding get_epochs_def np_unique_def Let_def cs_def [symmetric] ds_def [symmetric]
    by (simp only: prod.case histogram_inverse [OF d s ne refl] sum.case)
  moreover have "sum_list ?rep = 2 * length ifgs"
    using sum_counts [OF d s] len by simp
  ultimately show ?thesis
    using d s so by (simp add: cs_def)
qed

theorem get_epochs_repeat_counts_witness:
  "\<exists>el. get_epochs triangle_ifgs = Inr el \<and> sum_list (repeat el) = 6"
  using get_epochs_repeat_counts [of triangle_ifgs]
  by (auto simp: triangle_ifgs_def)

lemma get_epochs_empty: "get_epochs [] = Inl (ValueError InvalidBins)"
  by (simp add: get_epochs_def np_unique_def histogram_def)

section \<open>The shared graph\<close>

lemma add_nodes_edges: "add_nodes g ns = Inr g' \<Longrightarrow> edge_weights g' = edge_weights g"
  by (induction ns arbitrary: g) (auto simp: add_node_def split: if_splits sum.splits)

lemma add_edges_edges:
  "add_edges g es = Inr g' \<Longrightarrow> distinct (map fst (edge_weights g)) \<Longrightarrow>
   edge_weights g' = edge_weights g @ es \<and> distinct (map fst (edge_weights g'))"
proof (induction es arbitrary: g)
  case Nil
  then show ?case by simp
next
  case (Cons a es)
  obtain e w where a: "a = (e, w)" by (cases a)
  from Cons.prems(1) a obtain g1 where g1: "add_edge g e w = Inr g1" and r: "add_edges g1 es = Inr g'"
    by (auto split: sum.splits)
  from g1 have e1: "edge_weights g1 = edge_weights g @ [(e, w)]" and "\<not> has_edge g e"
    by (auto simp: add_edge_def split: if_splits)
  with Cons.prems(2) have "distinct (map fst (edge_weights g1))"
    by (simp add: has_edge_def)
  from Cons.IH [OF r this] have i: "edge_weights g' = edge_weights g1 @ es"
    and j: "distinct (map fst (edge_weights g'))" by blast+
  from i e1 a have "edge_weights g' = edge_weights g @ a # es" by simp
  with j show ?case by blast
qed

lemma build_graph_edges:
  assumes "build_graph ds edges weights = Inr g"
  shows "edge_weights g = zip edges weights" and "distinct (map fst (edge_weights g))"
proof -
  from assms obtain g1 where n: "add_nodes empty_graph ds = Inr g1"
    and e: "add_edges g1 (zip edges weights) = Inr g"
    by (auto simp: build_graph_def split: sum.splits)
  from add_nodes_edges [OF n] have g1: "edge_weights g1 = []" by (simp add: empty_graph_def)
  then have "distinct (map fst (edge_weights g1))" by simp
  from add_edges_edges [OF e this] have i: "edge_weights g = edge_weights g1 @ zip edges weights"
    and j: "distinct (map fst (edge_weights g))" by blast+
  from i g1 show "edge_weights g = zip edges weights" by simp
  from j show "distinct (map fst (edge_weights g))" .
qed

lemma adjust_graph_ok:
  "distinct (map fst (edge_weights g)) \<Longrightarrow>
   \<exists>g'. adjust_graph g ts = Inr g' \<and> distinct (map fst (edge_weights g')) \<and>
     set (edge_weights g') \<subseteq> set (edge_weights g) \<union> snd ` set ts \<and>
     (distinct (map (fst \<circ> snd) ts) \<longrightarrow>
        fst ` set (edge_weights g') =
          (fst ` set (edge_weights g) - (fst \<circ> snd) ` set ts) \<union>
          {e. \<exists>v w. (Some v, e, w) \<in> set ts})"
proof (induction g ts rule: adjust_graph.induct)
  case (1 g)
  then show ?case by simp
next
  case (2 g v edge weight rest)
  show ?case
  proof (cases "v \<noteq> None")
    case present: True
    show ?thesis
    proof (cases "has_edge g edge")
      case True
      from "2.IH"(2) [OF present _ "2.prems"] True obtain g' where
        g': "adjust_graph g rest = Inr g'" "distinct (map fst (edge_weights g'))"
          "set (edge_weights g') \<subseteq> set (edge_weights g) \<union> snd ` set rest"
          "distinct (map (fst \<circ> snd) rest) \<longrightarrow>
             fst ` set (edge_weights g') =
               (fst ` set (edge_weights g) - (fst \<circ> snd) ` set rest) \<union>
               {e. \<exists>v w. (Some v, e, w) \<in> set rest}"
        by blast
      have "adjust_graph g ((v, edge, weight) # rest) = Inr g'"
        using present True g'(1) by simp
      moreover have "set (edge_weights g') \<subseteq>
          set (edge_weights g) \<union> snd ` set ((v, edge, weight) # rest)"
        using g'(3) by auto
      moreover have "fst ` set (edge_weights g') =
          (fst ` set (edge_weights g) - (fst \<circ> snd) ` set ((v, edge, weight) # rest)) \<union>
          {e. \<exists>u w. (Some u, e, w) \<in> set ((v, edge, weight) # rest)}"
        if d: "distinct (map (fst \<circ> snd) ((v, edge, weight) # rest))"
      proof -
        from d have "edge \<notin> (fst \<circ> snd) ` set rest" and "distinct (map (fst \<circ> snd) rest)"
          by simp_all
        with g'(4) True present show ?thesis
          by (auto simp: has_edge_def image_iff)
      qed
      ultimately show ?thesis using g'(2) by blast
    next
      case False
      define g1 where "g1 = g\<lparr>edge_weights := edge_weights g @ [(edge, weight)]\<rparr>"
      have a: "add_edge g edge weight = Inr g1"
        using False by (simp add: add_edge_def g1_def)
      have d1: "distinct (map fst (edge_weights g1))"
        using False "2.prems" by (simp add: g1_def has_edge_def)
      from "2.IH"(1) [OF present False a d1] obtain g' where
        g': "adjust_graph g1 rest = Inr g'" "distinct (map fst (edge_weights g'))"
          "set (edge_weights g') \<subseteq> set (edge_weights g1) \<union> snd ` set rest"
          "distinct (map (fst \<circ> snd) rest) \<longrightarrow>
             fst ` set (edge_weights g') =
               (fst ` set (edge_weights g1) - (fst \<circ> snd) ` set rest) \<union>
               {e. \<exists>v w. (Some v, e, w) \<in> set rest}"
        by blast
      have "adjust_graph g ((v, edge, weight) # rest) = Inr g'"
        using present False a g'(1) by simp
      moreover have "set (edge_weights g') \<subseteq>
          set (edge_weights g) \<union> snd ` set ((v, edge, weight) # rest)"
        using g'(3) by (auto simp: g1_def)
      moreover have "fst ` set (edge_weights g') =
          (fst ` set (edge_weights g) - (fst \<circ> snd) ` set ((v, edge, weight) # rest)) \<union>
          {e. \<exists>u w. (Some u, e, w) \<in> set ((v, edge, weight) # rest)}"
        if d: "distinct (map (fst \<circ> snd) ((v, edge, weight) # rest))"
      proof -
        from d have "edge \<notin> (fst \<circ> snd) ` set rest" and "distinct (map (fst \<circ> snd) rest)"
          by simp_all
        with g'(4) False present show ?thesis
          by (auto simp: has_edge_def image_iff g1_def)
      qed
      ultimately show ?thesis using g'(2) by blast
    qed
  next
    case missing: False
    show ?thesis
    proof (cases "has_edge g edge")
      case True
      have d1: "distinct (map fst (edge_weights (del_edge g edge)))"
        using "2.prems" by (simp add: del_edge_def distinct_delete)
      from "2.IH"(3) [OF missing True d1] obtain g' where
        g': "adjust_graph (del_edge g edge) rest = Inr g'" "distinct (map fst (edge_weights g'))"
          "set (edge_weights g') \<subseteq> set (edge_weights (del_edge g edge)) \<union> snd ` set rest"
          "distinct (map (fst \<circ> snd) rest) \<longrightarrow>
             fst ` set (edge_weights g') =
               (fst ` set (edge_weights (del_edge g edge)) - (fst \<circ> snd) ` set rest) \<union>
               {e. \<exists>v w. (Some v, e, w) \<in> set rest}"
        by blast
      have del: "set (edge_weights (del_edge g edge)) = {a \<in> set (edge_weights g). fst a \<noteq> edge}"
        by (auto simp: del_edge_def AList.delete_eq)
      have "adjust_graph g ((v, edge, weight) # rest) = Inr g'"
        using missing True g'(1) by simp
      moreover have "set (edge_weights g') \<subseteq>
          set (edge_weights g) \<union> snd ` set ((v, edge, weight) # rest)"
        using g'(3) del by auto
      moreover have "fst ` set (edge_weights g') =
          (fst ` set (edge_weights g) - (fst \<circ> snd) ` set ((v, edge, weight) # rest)) \<union>
          {e. \<exists>u w. (Some u, e, w) \<in> set ((v, edge, weight) # rest)}"
        if d: "distinct (map (fst \<circ> snd) ((v, edge, weight) # rest))"
      proof -
        from d have "edge \<notin> (fst \<circ> snd) ` set rest" and "distinct (map (fst \<circ> snd) rest)"
          by simp_all
        with g'(4) missing del show ?thesis
          by (auto simp: image_iff)
      qed
      ultimately show ?thesis using g'(2) by blast
    next
      case False
      from "2.IH"(4) [OF missing False "2.prems"] obtain g' where
        g': "adjust_graph g rest = Inr g'" "distinct (map fst (edge_weights g'))"
          "set (edge_weights g') \<subseteq> set (edge_weights g) \<union> snd ` set rest"
          "distinct (map (fst \<circ> snd) rest) \<longrightarrow>
             fst ` set (edge_weights g') =
               (fst ` set (edge_weights g) - (fst \<circ> snd) ` set rest) \<union>
               {e. \<exists>v w. (Some v, e, w) \<in> set rest}"
        by blast
      have "adjust_graph g ((v, edge, weight) # rest) = Inr g'"
        using missing False g'(1) by simp
      moreover have "set (edge_weights g') \<subseteq>
          set (edge_weights g) \<union> snd ` set ((v, edge, weight) # rest)"
        using g'(3) by auto
      moreover have "fst ` set (edge_weights g') =
          (fst ` set (edge_weights g) - (fst \<circ> snd) ` set ((v, edge, weight) # rest)) \<union>
          {e. \<exists>u w. (Some u, e, w) \<in> set ((v, edge, weight) # rest)}"
        if d: "distinct (map (fst \<circ> snd) ((v, edge, weight) # rest))"
      proof -
        from d have "edge \<notin> (fst \<circ> snd) ` set rest" and "distinct (map (fst \<circ> snd) rest)"
          by simp_all
        with g'(4) missing False show ?thesis
          by (auto simp: has_edge_def image_iff)
      qed
      ultimately show ?thesis using g'(2) by blast
    qed
  qed
qed

lemma pixel_values_nth:
  "pixel_values ifgs y x = Inr vals \<Longrightarrow>
   length vals = length ifgs \<and> (\<forall>k<length ifgs. vals ! k = phase_data (ifgs ! k) ! y ! x)"
proof (induction ifgs arbitrary: vals)
  case Nil
  then show ?case by simp
next
  case (Cons i ifgs)
  then obtain vs where vs: "pixel_values ifgs y x = Inr vs" and v: "vals = phase_data i ! y ! x # vs"
    by (auto split: if_splits sum.splits)
  from Cons.IH [OF vs] v show ?case
    by (auto simp: nth_Cons split: nat.splits)
qed

lemma pixels_loop_append:
  "pixels_loop mst_of dflt ifgs (ps @ qs) st =
     (case pixels_loop mst_of dflt ifgs ps st of
        Inl e \<Rightarrow> Inl e
      | Inr st' \<Rightarrow> pixels_loop mst_of dflt ifgs qs st')"
  by (induction ps arbitrary: st) (auto split: sum.splits)

lemma pixels_loop_single:
  "pixels_loop mst_of dflt ifgs [p] st = pixel_step mst_of dflt ifgs st p"
  by (simp split: sum.splits)

lemma pixel_step_inv:
  assumes "pixel_step mst_of dflt ifgs st p = Inr st'" and "graph_inv ifgs (fst st)"
  shows "graph_inv ifgs (fst st')"
proof -
  let ?ts = "\<lambda>vals. zip vals (zip (map DATE12 ifgs) (map nan_fraction ifgs))"
  from assms(1) obtain vals where vals: "pixel_values ifgs (fst p) (snd p) = Inr vals"
    by (auto simp: pixel_step_def split: sum.splits)
  from assms(1) vals consider "fst st' = fst st"
    | "adjust_graph (fst st) (?ts vals) = Inr (fst st')"
    by (auto simp: pixel_step_def Let_def split: if_splits sum.splits)
  then show ?thesis
  proof cases
    case 1
    with assms(2) show ?thesis by simp
  next
    case 2
    from assms(2) have "distinct (map fst (edge_weights (fst st)))"
      by (simp add: graph_inv_def)
    from adjust_graph_ok [OF this, of "?ts vals"] 2
    have "distinct (map fst (edge_weights (fst st')))"
      and "set (edge_weights (fst st')) \<subseteq> set (edge_weights (fst st)) \<union> snd ` set (?ts vals)"
      by auto
    moreover have "snd ` set (?ts vals) \<subseteq> set (zip (map DATE12 ifgs) (map nan_fraction ifgs))"
      by (auto dest: set_zip_rightD)
    ultimately show ?thesis
      using assms(2) unfolding graph_inv_def by blast
  qed
qed

lemma pixels_loop_inv:
  "pixels_loop mst_of dflt ifgs ps st = Inr st' \<Longrightarrow> graph_inv ifgs (fst st) \<Longrightarrow>
   graph_inv ifgs (fst st')"
proof (induction ps arbitrary: st)
  case Nil
  then show ?case by simp
next
  case (Cons p ps)
  then obtain st1 where 1: "pixel_step mst_of dflt ifgs st p = Inr st1"
    and 2: "pixels_loop mst_of dflt ifgs ps st1 = Inr st'"
    by (auto split: sum.splits)
  from Cons.IH [OF 2 pixel_step_inv [OF 1 Cons.prems(2)] ] show ?case .
qed

lemma build_graph_inv:
  assumes "build_graph ds (map DATE12 ifgs) (map nan_fraction ifgs) = Inr g"
  shows "graph_inv ifgs g" and "distinct (map DATE12 ifgs)"
proof -
  from build_graph_edges [OF assms]
  have e: "edge_weights g = zip (map DATE12 ifgs) (map nan_fraction ifgs)"
    and d: "distinct (map fst (edge_weights g))" by simp_all
  then show "graph_inv ifgs g" by (simp add: graph_inv_def)
  from d e show "distinct (map DATE12 ifgs)" by simp
qed

lemma adjust_present:
  assumes d: "distinct (map DATE12 ifgs)" and inv: "graph_inv ifgs g"
    and len: "length vals = length ifgs"
    and adj: "adjust_graph g (zip vals (zip (map DATE12 ifgs) (map nan_fraction ifgs))) = Inr g'"
  shows "set (edge_weights g') = present_edges ifgs vals"
proof -
  let ?E = "map DATE12 ifgs" and ?W = "map nan_fraction ifgs"
  let ?ts = "zip vals (zip ?E ?W)"
  have ts: "map (fst \<circ> snd) ?ts = ?E"
    using len by (intro nth_equalityI) simp_all
  from inv have dg: "distinct (map fst (edge_weights g))"
    and sub: "set (edge_weights g) \<subseteq> set (zip ?E ?W)"
    by (simp_all add: graph_inv_def)
  from adjust_graph_ok [OF dg, of ?ts] adj d ts
  have sub': "set (edge_weights g') \<subseteq> set (edge_weights g) \<union> snd ` set ?ts"
    and keys: "fst ` set (edge_weights g') =
      (fst ` set (edge_weights g) - (fst \<circ> snd) ` set ?ts) \<union> {e. \<exists>v w. (Some v, e, w) \<in> set ?ts}"
    by auto
  have "(fst \<circ> snd) ` set ?ts = set ?E"
    using ts by (metis set_map)
  moreover have "fst ` set (edge_weights g) \<subseteq> set ?E"
  proof
    fix e assume "e \<in> fst ` set (edge_weights g)"
    then obtain w where "(e, w) \<in> set (edge_weights g)" by auto
    with sub have "(e, w) \<in> set (zip ?E ?W)" by blast
    then show "e \<in> set ?E" by (rule set_zip_leftD)
  qed
  ultimately have keys': "fst ` set (edge_weights g') = {e. \<exists>v w. (Some v, e, w) \<in> set ?ts}"
    using keys by auto
  have in_ts: "(Some v, e, w) \<in> set ?ts \<longleftrightarrow>
      (\<exists>k<length ifgs. vals ! k = Some v \<and> e = DATE12 (ifgs ! k) \<and> w = nan_fraction (ifgs ! k))"
    for v e w
    using len by (auto simp: in_set_zip)
  have in_zip: "(e, w) \<in> set (zip ?E ?W) \<longleftrightarrow>
      (\<exists>k<length ifgs. e = DATE12 (ifgs ! k) \<and> w = nan_fraction (ifgs ! k))" for e w
  proof -
    have "zip ?E ?W = map (\<lambda>i. (DATE12 i, nan_fraction i)) ifgs"
      by (simp add: zip_map_map zip_same_conv_map)
    then have "(e, w) \<in> set (zip ?E ?W) \<longleftrightarrow>
        (\<exists>i\<in>set ifgs. e = DATE12 i \<and> w = nan_fraction i)"
      by auto
    also have "\<dots> \<longleftrightarrow>
        (\<exists>k<length ifgs. e = DATE12 (ifgs ! k) \<and> w = nan_fraction (ifgs ! k))"
      by (metis in_set_conv_nth)
    finally show ?thesis .
  qed
  have "snd ` set ?ts \<subseteq> set (zip ?E ?W)"
    by (auto dest: set_zip_rightD)
  with sub' sub have sub'': "set (edge_weights g') \<subseteq> set (zip ?E ?W)"
    by blast
  have inj: "j = k" if "j < length ifgs" "k < length ifgs" "DATE12 (ifgs ! j) = DATE12 (ifgs ! k)"
    for j k
    using d that by (auto simp: distinct_conv_nth)
  show ?thesis
  proof (intro set_eqI iffI)
    fix a assume a: "a \<in> set (edge_weights g')"
    obtain e w where ew: "a = (e, w)" by (cases a)
    from a ew sub'' have "(e, w) \<in> set (zip ?E ?W)" by blast
    then obtain j where j: "j < length ifgs" "e = DATE12 (ifgs ! j)"
      "w = nan_fraction (ifgs ! j)" using in_zip [THEN iffD1] by blast
    from a ew have "e \<in> fst ` set (edge_weights g')" by force
    with keys' obtain v w' where "(Some v, e, w') \<in> set ?ts" by blast
    then obtain k where k: "k < length ifgs" "vals ! k = Some v"
      "e = DATE12 (ifgs ! k)" using in_ts [THEN iffD1] by blast
    from inj [OF j(1) k(1)] j(2) k(3) have "j = k" by simp
    with j k have "vals ! j \<noteq> None" by simp
    with j ew show "a \<in> present_edges ifgs vals"
      unfolding present_edges_def by blast
  next
    fix a assume "a \<in> present_edges ifgs vals"
    then obtain k where k: "k < length ifgs" "vals ! k \<noteq> None"
      and a: "a = (DATE12 (ifgs ! k), nan_fraction (ifgs ! k))"
      unfolding present_edges_def by blast
    from k(2) obtain v where v: "vals ! k = Some v" by auto
    with k(1) have "(Some v, DATE12 (ifgs ! k), nan_fraction (ifgs ! k)) \<in> set ?ts"
      using in_ts [THEN iffD2] by blast
    with keys' have "DATE12 (ifgs ! k) \<in> fst ` set (edge_weights g')" by blast
    then obtain w where w: "(DATE12 (ifgs ! k), w) \<in> set (edge_weights g')" by auto
    with sub'' have "(DATE12 (ifgs ! k), w) \<in> set (zip ?E ?W)" by blast
    then obtain j where j: "j < length ifgs" "DATE12 (ifgs ! k) = DATE12 (ifgs ! j)"
      "w = nan_fraction (ifgs ! j)" using in_zip [THEN iffD1] by blast
    from inj [OF k(1) j(1) j(2)] j(3) w a show "a \<in> set (edge_weights g')" by simp
  qed
qed

text \<open>
  Claim C1. Start the loop of \<^verbatim>\<open>mst_matrix\<close> on the graph built from the stack, and let
  it process any pixels \<open>ps\<close> and then a pixel \<open>p\<close> at which some but not all interferograms
  are NaN. The graph on which the tree of \<open>p\<close> is computed then has exactly the edges
  (with their weights) of the interferograms whose value at \<open>p\<close> is not NaN, whatever
  the pixels \<open>ps\<close> were.
\<close>

theorem general_pixel_graph:
  assumes build: "build_graph ds (map DATE12 ifgs) (map nan_fraction ifgs) = Inr g0"
    and run: "pixels_loop mst_of dflt ifgs (ps @ [p]) (g0, []) = Inr (g, out)"
    and vals: "pixel_values ifgs (fst p) (snd p) = Inr vals"
    and some: "0 < length (filter (\<lambda>v. v = None) vals)"
    and not_all: "length (filter (\<lambda>v. v = None) vals) < length ifgs"
  shows "set (edge_weights g) = present_edges ifgs vals \<and>
         last out = (p, Tree (remove_root_node (mst_of g)))"
proof -
  from run obtain st1 where 1: "pixels_loop mst_of dflt ifgs ps (g0, []) = Inr st1"
    and 2: "pixel_step mst_of dflt ifgs st1 p = Inr (g, out)"
    by (auto simp: pixels_loop_append pixels_loop_single split: sum.splits)
  from build_graph_inv [OF build] have inv0: "graph_inv ifgs g0" and d: "distinct (map DATE12 ifgs)" .
  from pixels_loop_inv [OF 1] inv0 have inv1: "graph_inv ifgs (fst st1)" by simp
  from 2 vals some not_all have
    adj: "adjust_graph (fst st1) (zip vals (zip (map DATE12 ifgs) (map nan_fraction ifgs))) = Inr g"
    and out: "out = snd st1 @ [(p, Tree (remove_root_node (mst_of g)))]"
    by (auto simp: pixel_step_def Let_def split: sum.splits)
  from pixel_values_nth [OF vals] have "length vals = length ifgs" by simp
  from adjust_present [OF d inv1 this adj] out show ?thesis by simp
qed

text \<open>
  Claim C7. Let the loop of \<^verbatim>\<open>mst_matrix\<close>, started on the graph \<open>g0\<close> built from a stack
  that is not empty, have processed the pixels \<open>ps\<close>. At a next pixel where no
  interferogram is NaN the cell is assigned the default tree, computed once from \<open>g0\<close>,
  and at a next pixel where every interferogram is NaN it is assigned \<^verbatim>\<open>nan\<close>; in both
  cases the graph is left as it was, and the tree function is not applied to it.
\<close>

theorem shortcut_pixels:
  assumes build: "build_graph ds (map DATE12 ifgs) (map nan_fraction ifgs) = Inr g0"
    and dflt: "dflt = remove_root_node (mst_of g0)"
    and run: "pixels_loop mst_of dflt ifgs ps (g0, []) = Inr (g1, out1)"
    and vals: "pixel_values ifgs (fst p) (snd p) = Inr vals"
    and ne: "ifgs \<noteq> []"
  shows "((\<forall>v\<in>set vals. v \<noteq> None) \<longrightarrow>
            pixels_loop mst_of dflt ifgs (ps @ [p]) (g0, []) =
              Inr (g1, out1 @ [(p, Tree (remove_root_node (mst_of g0)))])) \<and>
         ((\<forall>v\<in>set vals. v = None) \<longrightarrow>
            pixels_loop mst_of dflt ifgs (ps @ [p]) (g0, []) = Inr (g1, out1 @ [(p, Undefined)]))"
proof -
  from pixel_values_nth [OF vals] have len: "length vals = length ifgs" by simp
  have step: "pixels_loop mst_of dflt ifgs (ps @ [p]) (g0, []) =
      pixel_step mst_of dflt ifgs (g1, out1) p"
    using run by (simp add: pixels_loop_append split: sum.splits)
  have "pixel_step mst_of dflt ifgs (g1, out1) p = Inr (g1, out1 @ [(p, Tree dflt)])"
    if "\<forall>v\<in>set vals. v \<noteq> None"
    using that vals by (simp add: pixel_step_def Let_def filter_empty_conv)
  moreover have "pixel_step mst_of dflt ifgs (g1, out1) p = Inr (g1, out1 @ [(p, Undefined)])"
    if a: "\<forall>v\<in>set vals. v = None"
  proof -
    from a have "filter (\<lambda>v. v = None) vals = vals" by (simp add: filter_id_conv)
    with len ne vals show ?thesis by (simp add: pixel_step_def Let_def)
  qed
  ultimately show ?thesis using step dflt by simp
qed

section \<open>The loop on the example stack\<close>

lemma abc_build:
  "build_graph [10, 20, 30] (map DATE12 abc_ifgs) (map nan_fraction abc_ifgs) = Inr abc_graph"
  by (simp add: build_graph_def abc_ifgs_def abc_graph_def empty_graph_def add_node_def
      add_edge_def has_edge_def)

lemma abc_default: "remove_root_node (star_tree abc_graph) = star"
  by (simp add: remove_root_node_def star_tree_def abc_graph_def star_def AList.delete_eq)

lemma abc_values:
  "pixel_values abc_ifgs 0 0 = Inr [Some (Fin 1), Some (Fin 1), Some (Fin 1)]"
  "pixel_values abc_ifgs 0 1 = Inr [None, Some (Fin 2), Some (Fin 2)]"
  "pixel_values abc_ifgs 0 2 = Inr [None, None, None]"
  by (simp_all add: abc_ifgs_def)

lemma abc_first: "pixel_step star_tree star abc_ifgs (abc_graph, []) (0, 0) =
    Inr (abc_graph, [((0, 0), Tree star)])"
  by (simp add: pixel_step_def abc_values)

lemma abc_adjust:
  "adjust_graph abc_graph
     (zip [None, Some (Fin 2), Some (Fin 2)] (zip (map DATE12 abc_ifgs) (map nan_fraction abc_ifgs))) =
   Inr bc_graph"
  by (simp add: abc_ifgs_def abc_graph_def bc_graph_def has_edge_def del_edge_def
      AList.delete_eq)

lemma bc_tree: "remove_root_node (star_tree bc_graph) = star"
  by (simp add: remove_root_node_def star_tree_def bc_graph_def star_def AList.delete_eq)

lemma abc_second: "pixel_step star_tree star abc_ifgs (abc_graph, [((0, 0), Tree star)]) (0, 1) =
    Inr (bc_graph, [((0, 0), Tree star), ((0, 1), Tree star)])"
proof -
  have "length abc_ifgs = 3" by (simp add: abc_ifgs_def)
  then show ?thesis
    by (simp add: pixel_step_def abc_values abc_adjust bc_tree del: One_nat_def)
qed

lemma abc_loop:
  "pixels_loop star_tree star abc_ifgs [(0, 0), (0, 1)] (abc_graph, []) =
     Inr (bc_graph, [((0, 0), Tree star), ((0, 1), Tree star)])"
  by (simp add: abc_first abc_second del: One_nat_def)

theorem general_pixel_graph_witness:
  "pixels_loop star_tree star abc_ifgs [(0, 0), (0, 1)] (abc_graph, []) =
     Inr (bc_graph, [((0, 0), Tree star), ((0, 1), Tree star)]) \<and>
   set (edge_weights bc_graph) = present_edges abc_ifgs [None, Some (Fin 2), Some (Fin 2)]"
proof -
  have "length abc_ifgs = 3" by (simp add: abc_ifgs_def)
  with general_pixel_graph [OF abc_build, of star_tree star "[(0, 0)]" "(0, 1)" bc_graph
      "[((0, 0), Tree star), ((0, 1), Tree star)]" "[None, Some (Fin 2), Some (Fin 2)]"]
  show ?thesis
    using abc_loop abc_values by (simp del: One_nat_def)
qed

theorem shortcut_pixels_witness:
  "pixels_loop star_tree star abc_ifgs [(0, 0), (0, 1), (0, 2)] (abc_graph, []) =
     Inr (bc_graph, [((0, 0), Tree star), ((0, 1), Tree star), ((0, 2), Undefined)])"
proof -
  have "abc_ifgs \<noteq> []" by (simp add: abc_ifgs_def)
  with shortcut_pixels [where ds = "[10, 20, 30]" and ifgs = abc_ifgs and ?g0.0 = abc_graph
      and dflt = star and mst_of = star_tree and ps = "[(0, 0), (0, 1)]" and ?g1.0 = bc_graph
      and ?out1.0 = "[((0, 0), Tree star), ((0, 1), Tree star)]" and p = "(0, 2)"
      and vals = "[None, None, None]"]
  show ?thesis
    using abc_build abc_loop abc_values abc_default by (simp del: One_nat_def)
qed

lemma mst_matrix_abc:
  "mst_matrix star_tree abc_ifgs \<lparr>dates = [10, 20, 30], repeat = [2, 2, 2], spans = []\<rparr> =
     Inr [((0, 0), Tree star), ((0, 1), Tree star), ((0, 2), Undefined)]"
proof -
  have ne: "(abc_ifgs = []) = False" by (simp add: abc_ifgs_def)
  have grid: "List.product [0 ..< nat (FILE_LENGTH (last abc_ifgs))]
      [0 ..< nat (WIDTH (last abc_ifgs))] = [(0, 0), (0, 1)] @ [(0, 2)]"
    by (simp add: abc_ifgs_def upt_conv_Cons)
  have third: "pixel_step star_tree star abc_ifgs
      (bc_graph, [((0, 0), Tree star), ((0, 1), Tree star)]) (0, 2) =
      Inr (bc_graph, [((0, 0), Tree star), ((0, 1), Tree star), ((0, 2), Undefined)])"
    by (simp add: pixel_step_def abc_values) (simp add: abc_ifgs_def)
  have loop: "pixels_loop star_tree star abc_ifgs ([(0, 0), (0, 1)] @ [(0, 2)]) (abc_graph, []) =
      Inr (bc_graph, [((0, 0), Tree star), ((0, 1), Tree star), ((0, 2), Undefined)])"
    by (simp only: pixels_loop_append abc_loop sum.case pixels_loop_single third)
  show ?thesis
    unfolding mst_matrix_def
    by (simp only: EpochList.simps abc_build sum.case Let_def abc_default ne if_False grid loop
        snd_conv)
qed

end
